theory Spec2Isabelle
  imports Main "HOL-Library.Word"
begin

section \<open>Go strings: bytes, UTF-8 and the library functions the code calls\<close>

text \<open>
  A Go string is a sequence of bytes; it is modelled as \<^typ>\<open>string\<close> (a list of
  8-bit characters). \<open>len(s)\<close> is \<^const>\<open>length\<close>, \<open>s[i:j]\<close> is
  \<^const>\<open>take\<close>/\<^const>\<open>drop\<close>. Indices of the Docs API are Go \<open>int64\<close>
  values: 64-bit words, so every sum below wraps around as the Go sum does.
\<close>

type_synonym int64 = "64 word"

definition byte :: "char \<Rightarrow> nat" where
  "byte c = of_char c"

abbreviation NL :: char where
  "NL \<equiv> CHR 0x0A"

definition RuneError :: nat where
  "RuneError = 0xFFFD"

text \<open>Continuation bytes of UTF-8 (\<open>locb = 0x80\<close> to \<open>hicb = 0xBF\<close>).\<close>

definition contb :: "char \<Rightarrow> bool" where
  "contb c = (0x80 \<le> byte c \<and> byte c \<le> 0xBF)"

text \<open>
  \<open>utf8.DecodeRuneInString\<close>: the first rune of the string and its width in bytes.
  The table \<open>first\<close> of package \<open>utf8\<close> is written out: lead bytes \<open>0xC2..0xDF\<close>
  start a 2-byte rune, \<open>0xE0..0xEF\<close> a 3-byte rune, \<open>0xF0..0xF4\<close> a 4-byte rune,
  with the narrowed ranges of the second byte after \<open>0xE0\<close>, \<open>0xED\<close>, \<open>0xF0\<close>
  and \<open>0xF4\<close>. Every invalid or truncated sequence is \<open>(RuneError, 1)\<close>.
\<close>

definition accept_lo :: "nat \<Rightarrow> nat" where
  "accept_lo b0 = (if b0 = 0xE0 then 0xA0 else if b0 = 0xF0 then 0x90 else 0x80)"

definition accept_hi :: "nat \<Rightarrow> nat" where
  "accept_hi b0 = (if b0 = 0xED then 0x9F else if b0 = 0xF4 then 0x8F else 0xBF)"

fun DecodeRuneInString :: "string \<Rightarrow> nat \<times> nat" where
  "DecodeRuneInString [] = (RuneError, 0)"
| "DecodeRuneInString (c0 # s) =
     (let b0 = byte c0 in
      if b0 < 0x80 then (b0, 1)
      else if b0 < 0xC2 \<or> 0xF4 < b0 then (RuneError, 1)
      else (case s of
        [] \<Rightarrow> (RuneError, 1)
      | c1 # s1 \<Rightarrow>
          if byte c1 < accept_lo b0 \<or> accept_hi b0 < byte c1 then (RuneError, 1)
          else if b0 < 0xE0 then ((b0 mod 32) * 64 + byte c1 mod 64, 2)
          else (case s1 of
            [] \<Rightarrow> (RuneError, 1)
          | c2 # s2 \<Rightarrow>
              if \<not> contb c2 then (RuneError, 1)
              else if b0 < 0xF0 then
                ((b0 mod 16) * 4096 + (byte c1 mod 64) * 64 + byte c2 mod 64, 3)
              else (case s2 of
                [] \<Rightarrow> (RuneError, 1)
              | c3 # s3 \<Rightarrow>
                  if \<not> contb c3 then (RuneError, 1)
                  else ((b0 mod 8) * 262144 + (byte c1 mod 64) * 4096
                        + (byte c2 mod 64) * 64 + byte c3 mod 64, 4)))))"

text \<open>\<open>utf8.RuneCountInString\<close>: the number of runes, an invalid byte counting as one.\<close>

function RuneCountInString :: "string \<Rightarrow> nat" where
  "RuneCountInString s =
     (if s = [] then 0
      else Suc (RuneCountInString (drop (snd (DecodeRuneInString s)) s)))"
  by pat_completeness auto
termination
proof (relation "measure length")
  show "wf (measure length)" by simp
next
  fix s :: string
  assume "s \<noteq> []"
  then obtain c t where s: "s = c # t" by (cases s) auto
  have "0 < snd (DecodeRuneInString (c # t))"
    by (simp add: Let_def split: list.split)
  with s show "(drop (snd (DecodeRuneInString s)) s, s) \<in> measure length"
    by simp
qed


text \<open>
  \<open>unicode.IsSpace\<close>: in Latin-1 the spaces are \<open>\t \n \v \f \r\<close>, space, U+0085 and
  U+00A0; above Latin-1 they are the characters of the Unicode property White_Space.
\<close>

definition IsSpace :: "nat \<Rightarrow> bool" where
  "IsSpace r =
     (if r \<le> 0xFF
      then (0x09 \<le> r \<and> r \<le> 0x0D) \<or> r = 0x20 \<or> r = 0x85 \<or> r = 0xA0
      else r = 0x1680 \<or> (0x2000 \<le> r \<and> r \<le> 0x200A) \<or> r = 0x2028 \<or> r = 0x2029
           \<or> r = 0x202F \<or> r = 0x205F \<or> r = 0x3000)"

text \<open>
  \<open>utf8.DecodeLastRuneInString\<close>: the last rune and its width. From the last byte the
  Go loop walks back over at most three more bytes to a byte that is not a continuation byte
  (\<open>RuneStart\<close>), decodes forward from there and accepts the rune only if it ends exactly
  at the end of the string. The loop of at most three steps is written out.
\<close>

definition last_rune_start :: "string \<Rightarrow> nat" where
  "last_rune_start s =
     (let e = length s in
      if 2 \<le> e \<and> \<not> contb (s ! (e - 2)) then e - 2
      else if 3 \<le> e \<and> \<not> contb (s ! (e - 3)) then e - 3
      else if 4 \<le> e \<and> \<not> contb (s ! (e - 4)) then e - 4
      else if e \<le> 4 then 0 else e - 5)"

definition DecodeLastRuneInString :: "string \<Rightarrow> nat \<times> nat" where
  "DecodeLastRuneInString s =
     (if s = [] then (RuneError, 0)
      else if byte (last s) < 0x80 then (byte (last s), 1)
      else (let start = last_rune_start s;
                (r, size) = DecodeRuneInString (drop start s)
            in if start + size \<noteq> length s then (RuneError, 1) else (r, size)))"

text \<open>
  \<open>strings.TrimSpace\<close>: all leading and trailing white space removed. The Go function
  has a fast path for ASCII and otherwise calls \<open>TrimLeftFunc\<close> and \<open>TrimRightFunc\<close>
  with \<open>unicode.IsSpace\<close>; on an ASCII byte both decoders return that byte with width 1,
  so the fast path is the same walk. The left walk decodes runes forwards, the right
  walk decodes the last rune of what the left walk kept.
\<close>

function TrimLeftSpace :: "string \<Rightarrow> string" where
  "TrimLeftSpace s =
     (if s = [] then []
      else (let (r, size) = DecodeRuneInString s
            in if IsSpace r then TrimLeftSpace (drop size s) else s))"
  by pat_completeness auto
termination
proof (relation "measure length")
  show "wf (measure length)" by simp
next
  fix s :: string and x :: "nat \<times> nat" and r size :: nat
  assume "s \<noteq> []" and x: "x = DecodeRuneInString s" and rs: "(r, size) = x"
  then obtain c t where s: "s = c # t" by (cases s) auto
  have "0 < snd (DecodeRuneInString (c # t))"
    by (simp add: Let_def split: list.split)
  with s x rs have "0 < size" by (metis snd_conv)
  with s show "(drop size s, s) \<in> measure length" by simp
qed

function TrimRightSpace :: "string \<Rightarrow> string" where
  "TrimRightSpace s =
     (if s = [] then []
      else (let (r, size) = DecodeLastRuneInString s
            in if IsSpace r then TrimRightSpace (take (length s - size) s) else s))"
  by pat_completeness auto
termination
proof (relation "measure length")
  show "wf (measure length)" by simp
next
  fix s :: string and x :: "nat \<times> nat" and r size :: nat
  assume ne: "s \<noteq> []" and x: "x = DecodeLastRuneInString s" and rs: "(r, size) = x"
    and sp: "IsSpace r"
  have "size \<noteq> 0"
  proof
    assume z: "size = 0"
    let ?st = "last_rune_start s"
    from ne have lt: "?st < length s"
      by (cases s) (auto simp: last_rune_start_def Let_def)
    then obtain c t where d: "drop ?st s = c # t"
      by (cases "drop ?st s") auto
    have pos: "0 < snd (DecodeRuneInString (c # t))"
      by (simp add: Let_def split: list.split)
    from x rs z ne d pos show False
      by (auto simp: DecodeLastRuneInString_def Let_def split: if_splits prod.splits)
  qed
  with ne show "(take (length s - size) s, s) \<in> measure length"
    by (cases s) auto
qed

definition TrimSpace :: "string \<Rightarrow> string" where
  "TrimSpace s = TrimRightSpace (TrimLeftSpace s)"

text \<open>\<open>strings.HasPrefix\<close> and \<open>strings.TrimPrefix\<close>.\<close>

definition HasPrefix :: "string \<Rightarrow> string \<Rightarrow> bool" where
  "HasPrefix s p = (length p \<le> length s \<and> take (length p) s = p)"

definition TrimPrefix :: "string \<Rightarrow> string \<Rightarrow> string" where
  "TrimPrefix s p = (if HasPrefix s p then drop (length p) s else s)"

text \<open>
  \<open>strings.Split(s, "\n")\<close>: the pieces between the newlines, one more than there are
  newlines; the empty string gives one empty piece.
\<close>

fun SplitLines :: "string \<Rightarrow> string list" where
  "SplitLines [] = [[]]"
| "SplitLines (c # s) =
     (if c = NL then [] # SplitLines s
      else (case SplitLines s of [] \<Rightarrow> [[c]] | l # ls \<Rightarrow> (c # l) # ls))"

text \<open>\<open>s[i:j]\<close> for \<open>0 \<le> i \<le> j \<le> len(s)\<close>.\<close>

definition substr :: "string \<Rightarrow> nat \<Rightarrow> nat \<Rightarrow> string" where
  "substr s i j = take (j - i) (drop i s)"

text \<open>The verb \<open>%d\<close> of \<open>fmt.Sprintf\<close> on a non-negative integer.\<close>

definition digit_char :: "nat \<Rightarrow> char" where
  "digit_char d = char_of (48 + d)"

fun decimal :: "nat \<Rightarrow> string" where
  "decimal n = (if n < 10 then [digit_char n] else decimal (n div 10) @ [digit_char (n mod 10)])"


declare decimal.simps [simp del]
declare RuneCountInString.simps [simp del]
declare TrimLeftSpace.simps [simp del]
declare TrimRightSpace.simps [simp del]

section \<open>The two regular expressions of \<open>parseInlineFormatting\<close>\<close>

text \<open>
  The bold expression is \<^verbatim>\<open>\*\*([^*]+)\*\*|__([^_]+)__\<close> and the italic one is
  \<^verbatim>\<open>\*([^*]+)\*|_([^_]+)_\<close>: a marker of \<open>w\<close> copies of one ASCII character, a
  non-empty run of anything but that character, and the marker again (\<open>w = 2\<close> for bold,
  \<open>w = 1\<close> for italic). The run cannot contain the marker character and must be followed
  by it, so at a given position the run is the longest one and the match, if any, is unique;
  the two alternatives start with different characters, so at most one of them matches at a
  position. The markers are ASCII bytes, which UTF-8 never uses inside a longer rune, so
  matching bytes and matching runes find the same matches.
\<close>

datatype regex = boldRegex | italicRegex

fun marker_width :: "regex \<Rightarrow> nat" where
  "marker_width boldRegex = 2"
| "marker_width italicRegex = 1"

text \<open>
  A match as \<open>FindAllStringSubmatchIndex\<close> returns it: \<open>match[0]\<close>, \<open>match[1]\<close>, and the
  two groups, \<open>None\<close> where Go has \<open>-1\<close> for a group that took no part in the match.
\<close>

datatype submatch = Submatch (m0: nat) (m1: nat) (group1: "(nat \<times> nat) option")
  (group2: "(nat \<times> nat) option")

text \<open>The length of the run if the string starts with marker, run, marker.\<close>

definition delimited :: "nat \<Rightarrow> char \<Rightarrow> string \<Rightarrow> nat option" where
  "delimited w c s =
     (let run = takeWhile (\<lambda>x. x \<noteq> c) (drop w s)
      in if take w s = replicate w c \<and> run \<noteq> []
            \<and> take w (drop (w + length run) s) = replicate w c
         then Some (length run) else None)"

text \<open>A match of the expression that starts at the head of \<open>s\<close>, which is at byte \<open>pos\<close>.\<close>

definition match_at :: "regex \<Rightarrow> nat \<Rightarrow> string \<Rightarrow> submatch option" where
  "match_at re pos s =
     (let w = marker_width re in
      case delimited w (CHR ''*'') s of
        Some n \<Rightarrow> Some (Submatch pos (pos + 2 * w + n) (Some (pos + w, pos + w + n)) None)
      | None \<Rightarrow>
         (case delimited w (CHR ''_'') s of
            Some n \<Rightarrow> Some (Submatch pos (pos + 2 * w + n) None (Some (pos + w, pos + w + n)))
          | None \<Rightarrow> None))"

text \<open>
  The successive leftmost matches from byte \<open>pos\<close> on, \<open>s\<close> being the text from there:
  the search resumes at the end of each match (no match is empty).
\<close>

function find_from :: "regex \<Rightarrow> nat \<Rightarrow> string \<Rightarrow> submatch list" where
  "find_from re pos s =
     (if s = [] then []
      else (case match_at re pos s of
              Some m \<Rightarrow> m # find_from re (m1 m) (drop (m1 m - pos) s)
            | None \<Rightarrow> find_from re (Suc pos) (tl s)))"
  by pat_completeness auto
termination
proof (relation "measure (\<lambda>(re, pos, s). length s)")
  show "wf (measure (\<lambda>(re, pos, s). length s))" by simp
next
  fix re :: regex and pos :: nat and s :: string
  assume "s \<noteq> []"
  then show "((re, Suc pos, tl s), (re, pos, s)) \<in> measure (\<lambda>(re, pos, s). length s)"
    by (cases s) auto
next
  fix re :: regex and pos :: nat and m :: submatch and s :: string
  assume ne: "s \<noteq> []" and m: "match_at re pos s = Some m"
  from m have "pos < m1 m"
    by (auto simp: match_at_def delimited_def Let_def split: option.splits if_splits)
  with ne show "((re, m1 m, drop (m1 m - pos) s), (re, pos, s))
      \<in> measure (\<lambda>(re, pos, s). length s)"
    by (cases s) auto
qed

declare find_from.simps [simp del]

definition FindAllStringSubmatchIndex :: "regex \<Rightarrow> string \<Rightarrow> submatch list" where
  "FindAllStringSubmatchIndex re text = find_from re 0 text"

text \<open>What the template \<open>$1$2\<close> expands to: a group that did not take part is empty.\<close>

definition group_text :: "string \<Rightarrow> (nat \<times> nat) option \<Rightarrow> string" where
  "group_text text g = (case g of None \<Rightarrow> [] | Some (i, j) \<Rightarrow> substr text i j)"

text \<open>
  \<open>ReplaceAllString(text, "$1$2")\<close>: the text between the matches is copied, every
  match is replaced by its expansion (\<open>lastMatchEnd\<close> is the loop's variable).
\<close>

fun replace_from :: "string \<Rightarrow> nat \<Rightarrow> submatch list \<Rightarrow> string" where
  "replace_from text lastMatchEnd [] = drop lastMatchEnd text"
| "replace_from text lastMatchEnd (m # ms) =
     substr text lastMatchEnd (m0 m) @ group_text text (group1 m) @ group_text text (group2 m)
       @ replace_from text (m1 m) ms"

definition ReplaceAllString :: "regex \<Rightarrow> string \<Rightarrow> string" where
  "ReplaceAllString re text = replace_from text 0 (find_from re 0 text)"

section \<open>The Docs API values the code builds and reads\<close>

record TextStyle =
  Bold :: bool
  Italic :: bool
  Link :: "string option"

text \<open>
  The three kinds of \<open>docs.Request\<close> the compiler builds: \<open>InsertText\<close> with its location
  index and text, \<open>UpdateParagraphStyle\<close> with its range and named style type (fields
  \<open>namedStyleType\<close>), \<open>UpdateTextStyle\<close> with its range, text style and field mask.
\<close>

datatype request =
    InsertText int64 string
  | UpdateParagraphStyle int64 int64 string
  | UpdateTextStyle int64 int64 TextStyle string

section \<open>Package conversion: Markdown to requests\<close>

definition style_of :: "regex \<Rightarrow> TextStyle" where
  "style_of re = (case re of
       boldRegex \<Rightarrow> \<lparr>Bold = True, Italic = False, Link = None\<rparr>
     | italicRegex \<Rightarrow> \<lparr>Bold = False, Italic = True, Link = None\<rparr>)"

definition fields_of :: "regex \<Rightarrow> string" where
  "fields_of re = (case re of boldRegex \<Rightarrow> ''bold'' | italicRegex \<Rightarrow> ''italic'')"

text \<open>
  The \<open>content\<close> of a match in \<open>parseInlineFormatting\<close>: the first group if it took part
  in the match, else the second, else the empty string.
\<close>

definition match_content :: "string \<Rightarrow> submatch \<Rightarrow> string" where
  "match_content text m =
     (case group1 m of
        Some (i, j) \<Rightarrow> substr text i j
      | None \<Rightarrow> (case group2 m of Some (i, j) \<Rightarrow> substr text i j | None \<Rightarrow> []))"

text \<open>
  The loop over the matches of one stage of \<open>parseInlineFormatting\<close> (the bold loop and
  the italic loop differ only in the style they set). \<open>offset\<close> is the loop's variable.
\<close>

fun format_loop :: "regex \<Rightarrow> string \<Rightarrow> int64 \<Rightarrow> submatch list \<Rightarrow> int64 \<Rightarrow> request list" where
  "format_loop re text startIndex [] offset = []"
| "format_loop re text startIndex (m # ms) offset =
     (let content = match_content text m;
          contentRuneCount = (of_nat (RuneCountInString content) :: int64);
          matchRuneCount = (of_nat (RuneCountInString (substr text (m0 m) (m1 m))) :: int64);
          markerLength = matchRuneCount - contentRuneCount;
          matchStartRunes = (of_nat (RuneCountInString (take (m0 m) text)) :: int64);
          adjustedStart = matchStartRunes - offset;
          adjustedEnd = adjustedStart + contentRuneCount
      in UpdateTextStyle (startIndex + adjustedStart) (startIndex + adjustedEnd)
           (style_of re) (fields_of re)
         # format_loop re text startIndex ms (offset + markerLength))"

definition parseInlineFormatting :: "string \<Rightarrow> int64 \<Rightarrow> string \<times> request list" where
  "parseInlineFormatting text startIndex =
     (let matches = FindAllStringSubmatchIndex boldRegex text;
          requests = format_loop boldRegex text startIndex matches 0;
          plainText = ReplaceAllString boldRegex text;
          italicMatches = FindAllStringSubmatchIndex italicRegex plainText;
          requests = requests @ format_loop italicRegex plainText startIndex italicMatches 0;
          plainText = ReplaceAllString italicRegex plainText
      in (plainText, requests))"

text \<open>
  The body of the loop of \<open>MarkdownToDocsRequests\<close> on one line: the requests it appends
  and the new \<open>currentIndex\<close>.
\<close>

definition heading_level :: "string \<Rightarrow> nat" where
  "heading_level line = length (takeWhile (\<lambda>c. c = CHR ''#'') line)"

definition line_requests :: "string \<Rightarrow> int64 \<Rightarrow> request list \<times> int64" where
  "line_requests line0 currentIndex =
     (let line = TrimSpace line0 in
      if line = [] then ([InsertText currentIndex [NL]], currentIndex + 1)
      else if HasPrefix line ''#'' then
        (let level = heading_level line;
             text = TrimSpace (drop level line);
             styleType = ''HEADING_'' @ decimal level;
             textLen = (of_nat (RuneCountInString text) :: int64)
         in ([InsertText currentIndex (text @ [NL]),
              UpdateParagraphStyle currentIndex (currentIndex + textLen + 1) styleType],
             currentIndex + textLen + 1))
      else
        (let (processedText, formatRequests) = parseInlineFormatting line currentIndex;
             textLen = (of_nat (RuneCountInString processedText) :: int64)
         in (InsertText currentIndex (processedText @ [NL]) # formatRequests,
             currentIndex + textLen + 1)))"

fun compile_lines :: "string list \<Rightarrow> request list \<Rightarrow> int64 \<Rightarrow> request list" where
  "compile_lines [] requests currentIndex = requests"
| "compile_lines (line # lines) requests currentIndex =
     (let (new, next) = line_requests line currentIndex
      in compile_lines lines (requests @ new) next)"

definition MarkdownToDocsRequests :: "string \<Rightarrow> int64 \<Rightarrow> request list" where
  "MarkdownToDocsRequests markdown startIndex =
     compile_lines (SplitLines markdown) [] startIndex"


section \<open>The structured document\<close>

text \<open>
  The parts of \<open>docs.Document\<close> the code reads. A Go pointer that may be \<open>nil\<close> is an
  \<open>option\<close>. A table cell holds structural elements again, so the elements, tables, rows
  and cells are one recursive datatype. Field names that Go repeats in several structs are
  told apart by a prefix: \<open>RunTextStyle\<close> is \<open>TextRun.TextStyle\<close>, \<open>ElemTextRun\<close> is
  \<open>ParagraphElement.TextRun\<close>, \<open>ParaStyle\<close> is \<open>Paragraph.ParagraphStyle\<close>,
  \<open>ElemParagraph\<close>, \<open>ElemTable\<close>, \<open>ElemStartIndex\<close> and \<open>ElemEndIndex\<close> are the fields of
  \<open>StructuralElement\<close>, \<open>CellContent\<close> is \<open>TableCell.Content\<close>, \<open>DocTitle\<close> is
  \<open>Document.Title\<close> and \<open>BodyContent\<close> is \<open>Document.Body.Content\<close>.
\<close>

record TextRun =
  Content :: string
  RunTextStyle :: "TextStyle option"

record ParagraphElement =
  ElemTextRun :: "TextRun option"

record ParagraphStyle =
  NamedStyleType :: string

record Paragraph =
  Elements :: "ParagraphElement list"
  ParaStyle :: "ParagraphStyle option"

datatype StructuralElement =
  StructuralElement (ElemStartIndex: int64) (ElemEndIndex: int64)
    (ElemParagraph: "Paragraph option") (ElemTable: "Table option")
and Table = Table (TableRows: "TableRow list")
and TableRow = TableRow (TableCells: "TableCell list")
and TableCell = TableCell (CellContent: "StructuralElement list")

record Document =
  DocTitle :: string
  BodyContent :: "StructuralElement list"

section \<open>Package conversion: document to Markdown\<close>

definition GetParagraphText :: "Paragraph \<Rightarrow> string" where
  "GetParagraphText paragraph =
     TrimSpace (concat (map (\<lambda>element. case ElemTextRun element of
                                 None \<Rightarrow> [] | Some run \<Rightarrow> Content run)
                            (Elements paragraph)))"

text \<open>What one text run of a paragraph writes in \<open>formatParagraphAsMarkdown\<close>.\<close>

definition run_markdown :: "TextRun \<Rightarrow> string" where
  "run_markdown run =
     (let content = Content run in
      case RunTextStyle run of
        None \<Rightarrow> content
      | Some style \<Rightarrow>
         (let content = (if Bold style then ''**'' @ TrimSpace content @ ''**'' else content);
              content = (if Italic style then ''*'' @ TrimSpace content @ ''*'' else content);
              content = (case Link style of
                           Some url \<Rightarrow> ''['' @ TrimSpace content @ '']('' @ url @ '')''
                         | None \<Rightarrow> content)
          in content))"

definition formatParagraphAsMarkdown :: "Paragraph \<Rightarrow> string" where
  "formatParagraphAsMarkdown paragraph =
     (let result = concat (map (\<lambda>element. case ElemTextRun element of
                                   None \<Rightarrow> [] | Some run \<Rightarrow> run_markdown run)
                               (Elements paragraph))
      in if TrimSpace result \<noteq> [] then result @ [NL, NL] else [])"

definition getTableCellText :: "TableCell \<Rightarrow> string" where
  "getTableCellText cell =
     TrimSpace (concat (map (\<lambda>element. case ElemParagraph element of
                                 None \<Rightarrow> [] | Some paragraph \<Rightarrow> GetParagraphText paragraph)
                            (CellContent cell)))"

text \<open>The loop of \<open>tableToMarkdown\<close> over the rows, \<open>rowIdx\<close> being the loop index.\<close>

fun table_rows :: "nat \<Rightarrow> TableRow list \<Rightarrow> string" where
  "table_rows rowIdx [] = []"
| "table_rows rowIdx (row # rows) =
     ''|'' @ concat (map (\<lambda>cell. '' '' @ getTableCellText cell @ '' |'') (TableCells row))
       @ [NL]
       @ (if rowIdx = 0
          then ''|'' @ concat (map (\<lambda>cell. '' --- |'') (TableCells row)) @ [NL]
          else [])
       @ table_rows (Suc rowIdx) rows"

definition tableToMarkdown :: "Table \<Rightarrow> string" where
  "tableToMarkdown table = table_rows 0 (TableRows table) @ [NL]"

definition hashes :: "nat \<Rightarrow> string" where
  "hashes n = replicate n (CHR ''#'')"

text \<open>What \<open>DocsToMarkdown\<close> writes for one element of the body.\<close>

definition element_markdown :: "StructuralElement \<Rightarrow> string" where
  "element_markdown element =
     (case ElemParagraph element of
        Some paragraph \<Rightarrow>
          (case ParaStyle paragraph of
             None \<Rightarrow> formatParagraphAsMarkdown paragraph
           | Some pstyle \<Rightarrow>
               if NamedStyleType pstyle = [] then formatParagraphAsMarkdown paragraph
               else (let styleType = NamedStyleType pstyle;
                         text = GetParagraphText paragraph
                     in if styleType = ''HEADING_1'' then hashes 1 @ '' '' @ text @ [NL, NL]
                        else if styleType = ''HEADING_2'' then hashes 2 @ '' '' @ text @ [NL, NL]
                        else if styleType = ''HEADING_3'' then hashes 3 @ '' '' @ text @ [NL, NL]
                        else if styleType = ''HEADING_4'' then hashes 4 @ '' '' @ text @ [NL, NL]
                        else if styleType = ''HEADING_5'' then hashes 5 @ '' '' @ text @ [NL, NL]
                        else if styleType = ''HEADING_6'' then hashes 6 @ '' '' @ text @ [NL, NL]
                        else formatParagraphAsMarkdown paragraph))
      | None \<Rightarrow>
          (case ElemTable element of
             Some table \<Rightarrow> tableToMarkdown table
           | None \<Rightarrow> []))"

definition DocsToMarkdown :: "Document \<Rightarrow> string" where
  "DocsToMarkdown doc =
     ''# '' @ DocTitle doc @ [NL, NL] @ concat (map element_markdown (BodyContent doc))"


section \<open>The scanner of \<open>fmt.Sscanf\<close> for one integer verb\<close>

text \<open>
  Before an integer verb the scanner skips white space and fails on a newline. Then, within
  the width of the verb (counted in runes, the sign included), it takes an optional sign and
  a non-empty run of digits of the base (\<open>0123456789\<close> for \<open>%d\<close>,
  \<open>0123456789aAbBcCdDeEfF\<close> for \<open>%x\<close>); \<open>strconv.ParseInt\<close> rejects a value
  outside \<open>int64\<close>. \<open>None\<close> is a scan that fails; \<open>Sscanf\<close> then returns an error,
  which both callers ignore, and leaves the remaining operands untouched.
\<close>

function skip_space :: "string \<Rightarrow> string option" where
  "skip_space s =
     (if s = [] then Some []
      else (let (r, size) = DecodeRuneInString s
            in if r = 0x0A then None
               else if IsSpace r then skip_space (drop size s) else Some s))"
  by pat_completeness auto
termination
proof (relation "measure length")
  show "wf (measure length)" by simp
next
  fix s :: string and x :: "nat \<times> nat" and r size :: nat
  assume "s \<noteq> []" and x: "x = DecodeRuneInString s" and rs: "(r, size) = x"
  then obtain c t where s: "s = c # t" by (cases s) auto
  have "0 < snd (DecodeRuneInString (c # t))"
    by (simp add: Let_def split: list.split)
  with s x rs have "0 < size" by (metis snd_conv)
  with s show "(drop size s, s) \<in> measure length" by simp
qed

declare skip_space.simps [simp del]

definition digit_value :: "char \<Rightarrow> nat" where
  "digit_value c =
     (let b = byte c in
      if 0x30 \<le> b \<and> b \<le> 0x39 then b - 0x30
      else if 0x61 \<le> b \<and> b \<le> 0x66 then b - 0x61 + 10
      else b - 0x41 + 10)"

definition is_digit :: "nat \<Rightarrow> char \<Rightarrow> bool" where
  "is_digit base c =
     (let b = byte c in
      (0x30 \<le> b \<and> b \<le> 0x39)
      \<or> (base = 16 \<and> ((0x61 \<le> b \<and> b \<le> 0x66) \<or> (0x41 \<le> b \<and> b \<le> 0x46))))"

fun take_digits :: "nat \<Rightarrow> nat \<Rightarrow> string \<Rightarrow> string \<times> string" where
  "take_digits base 0 s = ([], s)"
| "take_digits base (Suc k) [] = ([], [])"
| "take_digits base (Suc k) (c # s) =
     (if is_digit base c
      then (let (tok, rest) = take_digits base k s in (c # tok, rest))
      else ([], c # s))"

definition scan_int :: "nat \<Rightarrow> nat \<Rightarrow> string \<Rightarrow> (int \<times> string) option" where
  "scan_int base width s =
     (case skip_space s of
        None \<Rightarrow> None
      | Some s1 \<Rightarrow>
         (case s1 of
            [] \<Rightarrow> None
          | c # s2 \<Rightarrow>
             (let signed = (c = CHR ''+'' \<or> c = CHR ''-'');
                  (tok, rest) = (if signed then take_digits base (width - 1) s2
                                 else take_digits base width s1);
                  v = int (foldl (\<lambda>acc d. acc * base + digit_value d) 0 tok);
                  i = (if c = CHR ''-'' then - v else v)
              in if tok = [] then None
                 else if i < - (2 ^ 63) \<or> 2 ^ 63 \<le> i then None
                 else Some (i, rest))))"

section \<open>Package conversion: colours\<close>

text \<open>
  \<open>fmt.Sscanf(hexColor, "%02x%02x%02x", &r, &g, &b)\<close> with the three operands
  initially zero: the operands scanned before the first failure are set.
\<close>

definition Sscanf_rgb :: "string \<Rightarrow> int \<times> int \<times> int" where
  "Sscanf_rgb s =
     (case scan_int 16 2 s of
        None \<Rightarrow> (0, 0, 0)
      | Some (r, s1) \<Rightarrow>
         (case scan_int 16 2 s1 of
            None \<Rightarrow> (r, 0, 0)
          | Some (g, s2) \<Rightarrow>
             (case scan_int 16 2 s2 of
                None \<Rightarrow> (r, g, 0)
              | Some (b, s3) \<Rightarrow> (r, g, b))))"

text \<open>
  \<open>ParseColor\<close> returns \<open>nil\<close> (\<open>None\<close>) or a colour. The colour is given by the three
  scanned integers \<open>r\<close>, \<open>g\<close>, \<open>b\<close>; the Go code stores each of them divided by
  \<open>255.0\<close> as a \<open>float64\<close>.
\<close>

definition ParseColor :: "string \<Rightarrow> (int \<times> int \<times> int) option" where
  "ParseColor hexColor0 =
     (let hexColor = TrimPrefix hexColor0 ''#'' in
      if length hexColor \<noteq> 6 then None
      else Some (Sscanf_rgb hexColor))"

section \<open>Package document: sections\<close>

record Section =
  EndIndex :: int64
  Level :: int
  StartIndex :: int64
  Title :: string

text \<open>\<open>fmt.Sscanf(styleType, "HEADING_%d", &level)\<close> on a string with that prefix.\<close>

definition Sscanf_heading :: "string \<Rightarrow> int" where
  "Sscanf_heading styleType =
     (case scan_int 10 (length styleType) (drop 8 styleType) of
        None \<Rightarrow> 0
      | Some (level, rest) \<Rightarrow> level)"

text \<open>The body of the loop of \<open>GetStructure\<close>: the section an element adds, if any.\<close>

definition element_section :: "StructuralElement \<Rightarrow> Section option" where
  "element_section element =
     (case ElemParagraph element of
        None \<Rightarrow> None
      | Some paragraph \<Rightarrow>
         (case ParaStyle paragraph of
            None \<Rightarrow> None
          | Some pstyle \<Rightarrow>
             (let styleType = NamedStyleType pstyle in
              if styleType \<noteq> [] \<and> HasPrefix styleType ''HEADING_''
              then Some \<lparr>EndIndex = ElemEndIndex element,
                         Level = Sscanf_heading styleType,
                         StartIndex = ElemStartIndex element,
                         Title = GetParagraphText paragraph\<rparr>
              else None)))"

fun structure_loop :: "StructuralElement list \<Rightarrow> Section list \<Rightarrow> Section list" where
  "structure_loop [] sections = sections"
| "structure_loop (element # elements) sections =
     structure_loop elements
       (case element_section element of
          None \<Rightarrow> sections
        | Some section \<Rightarrow> sections @ [section])"

definition GetStructure :: "Document \<Rightarrow> Section list" where
  "GetStructure doc = structure_loop (BodyContent doc) []"

text \<open>
  \<open>strings.EqualFold\<close>: the two strings are walked rune by rune. Two runes agree if they
  are equal, or, the larger being ASCII, if they are an upper-case ASCII letter and its
  lower-case form, or, the larger not being ASCII, if \<open>unicode.SimpleFold\<close> leads from the
  smaller to the larger within its case orbit. \<open>SimpleFold\<close> is a table of the Go
  run-time; the test made with it is the parameter \<open>orbit\<close>. (The Go function
  starts with a loop over bytes as long as both are ASCII, which makes the same tests.)
\<close>

definition rune_fold_eq :: "(nat \<Rightarrow> nat \<Rightarrow> bool) \<Rightarrow> nat \<Rightarrow> nat \<Rightarrow> bool" where
  "rune_fold_eq orbit r1 r2 =
     (let sr = min r1 r2; tr = max r1 r2 in
      if tr = sr then True
      else if tr < 0x80 then 0x41 \<le> sr \<and> sr \<le> 0x5A \<and> tr = sr + 0x20
      else orbit sr tr)"

function EqualFold :: "(nat \<Rightarrow> nat \<Rightarrow> bool) \<Rightarrow> string \<Rightarrow> string \<Rightarrow> bool" where
  "EqualFold orbit s t =
     (if s = [] then t = []
      else if t = [] then False
      else (let (sr, n) = DecodeRuneInString s;
                (tr, k) = DecodeRuneInString t
            in if rune_fold_eq orbit sr tr
               then EqualFold orbit (drop n s) (drop k t)
               else False))"
  by pat_completeness auto
termination
proof (relation "measure (\<lambda>(orbit, s, t). length s)")
  show "wf (measure (\<lambda>(orbit, s, t). length s))" by simp
next
  fix orbit :: "nat \<Rightarrow> nat \<Rightarrow> bool" and s t :: string
    and x :: "nat \<times> nat" and sr n :: nat and y :: "nat \<times> nat" and tr k :: nat
  assume "s \<noteq> []" and x: "x = DecodeRuneInString s" and rs: "(sr, n) = x"
  then obtain c u where s: "s = c # u" by (cases s) auto
  have "0 < snd (DecodeRuneInString (c # u))"
    by (simp add: Let_def split: list.split)
  with s x rs have "0 < n" by (metis snd_conv)
  with s show "((orbit, drop n s, drop k t), (orbit, s, t))
      \<in> measure (\<lambda>(orbit, s, t). length s)" by simp
qed

declare EqualFold.simps [simp del]

text \<open>The loop of \<open>FindSection\<close> over the sections.\<close>

fun find_loop :: "(nat \<Rightarrow> nat \<Rightarrow> bool) \<Rightarrow> string \<Rightarrow> Section list \<Rightarrow> Section option" where
  "find_loop orbit sectionName [] = None"
| "find_loop orbit sectionName (section # sections) =
     (if EqualFold orbit (Title section) sectionName then Some section
      else find_loop orbit sectionName sections)"

definition FindSection :: "(nat \<Rightarrow> nat \<Rightarrow> bool) \<Rightarrow> Document \<Rightarrow> string \<Rightarrow> Section option" where
  "FindSection orbit doc sectionName = find_loop orbit sectionName (GetStructure doc)"

section \<open>Package main: the earlier copy of the compiler (\<open>helpers.go\<close>)\<close>

text \<open>
  The earlier \<open>parseInlineFormatting\<close> slices the text at \<open>match[2]\<close> and \<open>match[3]\<close>
  without testing them; where the second alternative matched they are \<open>-1\<close> and the Go
  run-time panics. \<open>None\<close> is that panic.
\<close>

fun legacy_bold_loop :: "string \<Rightarrow> int64 \<Rightarrow> submatch list \<Rightarrow> request list option" where
  "legacy_bold_loop plainText startIndex [] = Some []"
| "legacy_bold_loop plainText startIndex (m # ms) =
     (case group1 m of
        None \<Rightarrow> None
      | Some (i, j) \<Rightarrow>
         (if substr plainText i j = [] \<and> group2 m = None then None
          else (case legacy_bold_loop plainText startIndex ms of
                  None \<Rightarrow> None
                | Some requests \<Rightarrow>
                    Some (UpdateTextStyle (startIndex + of_nat (m0 m)) (startIndex + of_nat (m1 m))
                            (style_of boldRegex) ''bold'' # requests))))"

definition legacy_parseInlineFormatting :: "string \<Rightarrow> int64 \<Rightarrow> (string \<times> request list) option" where
  "legacy_parseInlineFormatting text startIndex =
     (case legacy_bold_loop text startIndex (FindAllStringSubmatchIndex boldRegex text) of
        None \<Rightarrow> None
      | Some requests \<Rightarrow>
          Some (ReplaceAllString italicRegex (ReplaceAllString boldRegex text), requests))"

definition legacy_line_requests :: "string \<Rightarrow> int64 \<Rightarrow> (request list \<times> int64) option" where
  "legacy_line_requests line0 currentIndex =
     (let line = TrimSpace line0 in
      if line = [] then Some ([InsertText currentIndex [NL]], currentIndex + 1)
      else if HasPrefix line ''#'' then
        (let level = heading_level line;
             text = TrimSpace (drop level line);
             styleType = ''HEADING_'' @ decimal level
         in Some ([InsertText currentIndex (text @ [NL]),
                   UpdateParagraphStyle currentIndex (currentIndex + of_nat (length text) + 1)
                     styleType],
                  currentIndex + of_nat (length text) + 1))
      else
        (case legacy_parseInlineFormatting line currentIndex of
           None \<Rightarrow> None
         | Some (processedText, formatRequests) \<Rightarrow>
             Some (InsertText currentIndex (processedText @ [NL]) # formatRequests,
                   currentIndex + of_nat (length processedText) + 1)))"

fun legacy_compile_lines :: "string list \<Rightarrow> request list \<Rightarrow> int64 \<Rightarrow> request list option" where
  "legacy_compile_lines [] requests currentIndex = Some requests"
| "legacy_compile_lines (line # lines) requests currentIndex =
     (case legacy_line_requests line currentIndex of
        None \<Rightarrow> None
      | Some (new, next) \<Rightarrow> legacy_compile_lines lines (requests @ new) next)"

definition markdownToDocsRequests :: "string \<Rightarrow> int64 \<Rightarrow> request list option" where
  "markdownToDocsRequests markdown startIndex =
     legacy_compile_lines (SplitLines markdown) [] startIndex"

section \<open>The statements to be compared with the code\<close>






text \<open>
  A string that consists of white space only: decoded from the left, every rune of it is
  white space.
\<close>

function all_space :: "string \<Rightarrow> bool" where
  "all_space s =
     (if s = [] then True
      else (let (r, size) = DecodeRuneInString s
            in IsSpace r \<and> all_space (drop size s)))"
  by pat_completeness auto
termination
proof (relation "measure length")
  show "wf (measure length)" by simp
next
  fix s :: string and x :: "nat \<times> nat" and r size :: nat
  assume "s \<noteq> []" and x: "x = DecodeRuneInString s" and rs: "(r, size) = x"
  then obtain c t where s: "s = c # t" by (cases s) auto
  have "0 < snd (DecodeRuneInString (c # t))"
    by (simp add: Let_def split: list.split)
  with s x rs have "0 < size" by (metis snd_conv)
  with s show "(drop size s, s) \<in> measure length" by simp
qed

declare all_space.simps [simp del]

text \<open>Strings of ASCII bytes, and lines in which the inline pass finds nothing to style.\<close>

definition ascii_only :: "string \<Rightarrow> bool" where
  "ascii_only s = list_all (\<lambda>c. byte c < 0x80) s"

definition plain_line :: "string \<Rightarrow> bool" where
  "plain_line line0 =
     (let line = TrimSpace line0 in
      line = [] \<or> HasPrefix line ''#''
      \<or> (FindAllStringSubmatchIndex boldRegex line = []
          \<and> FindAllStringSubmatchIndex italicRegex line = []))"

text \<open>The hexadecimal digits, and the value of two of them.\<close>

definition hex_digit :: "char \<Rightarrow> bool" where
  "hex_digit c =
     (let b = byte c in
      (0x30 \<le> b \<and> b \<le> 0x39) \<or> (0x61 \<le> b \<and> b \<le> 0x66) \<or> (0x41 \<le> b \<and> b \<le> 0x46))"

definition hex_pair :: "char \<Rightarrow> char \<Rightarrow> int" where
  "hex_pair h l = int (digit_value h * 16 + digit_value l)"

text \<open>
  The line of a table row and the separator line, as the specification words them, the
  number of pipe characters of a line, and the lines of a text that are not empty.
\<close>

definition row_line :: "TableRow \<Rightarrow> string" where
  "row_line row =
     ''|'' @ concat (map (\<lambda>cell. '' '' @ getTableCellText cell @ '' |'') (TableCells row)) @ [NL]"

definition separator_line :: "TableRow \<Rightarrow> string" where
  "separator_line row = ''|'' @ concat (map (\<lambda>cell. '' --- |'') (TableCells row)) @ [NL]"

definition pipes :: "string \<Rightarrow> nat" where
  "pipes line = count_list line (CHR ''|'')"

definition nonblank_lines :: "string \<Rightarrow> string list" where
  "nonblank_lines s = filter (\<lambda>line. line \<noteq> []) (SplitLines s)"

text \<open>Small documents for the examples: unstyled runs, a paragraph of them, a cell of one.\<close>

definition text_element :: "string \<Rightarrow> ParagraphElement" where
  "text_element s = \<lparr>ElemTextRun = Some \<lparr>Content = s, RunTextStyle = None\<rparr>\<rparr>"

definition text_paragraph :: "string list \<Rightarrow> Paragraph" where
  "text_paragraph runs = \<lparr>Elements = map text_element runs, ParaStyle = None\<rparr>"

definition text_cell :: "string \<Rightarrow> TableCell" where
  "text_cell s = TableCell [StructuralElement 0 0 (Some (text_paragraph [s])) None]"

text \<open>
  The skipping of runs as the specification words it: the paragraph without the runs whose
  formatted text is empty once trimmed.
\<close>

definition claimed_skip :: "Paragraph \<Rightarrow> Paragraph" where
  "claimed_skip paragraph =
     paragraph\<lparr>Elements :=
       filter (\<lambda>element. case ElemTextRun element of
                   None \<Rightarrow> True
                 | Some run \<Rightarrow> TrimSpace (run_markdown run) \<noteq> [])
              (Elements paragraph)\<rparr>"

text \<open>The byte of a character with the ASCII upper-case letters mapped to lower case.\<close>

definition lower_byte :: "char \<Rightarrow> nat" where
  "lower_byte c = (if 0x41 \<le> byte c \<and> byte c \<le> 0x5A then byte c + 0x20 else byte c)"

text \<open>
  A paragraph element of one unstyled run with a named style, and the document of the
  section lookup example: the headings \<open>Intro\<close> (level 1) and \<open>intro details\<close> (level 2).
\<close>

definition heading_element :: "int64 \<Rightarrow> int64 \<Rightarrow> string \<Rightarrow> string \<Rightarrow> StructuralElement" where
  "heading_element start end styleType s =
     StructuralElement start end
       (Some \<lparr>Elements = [text_element s], ParaStyle = Some \<lparr>NamedStyleType = styleType\<rparr>\<rparr>)
       None"


definition intro_document :: Document where
  "intro_document =
     \<lparr>DocTitle = ''Doc'',
      BodyContent = [heading_element 1 7 ''HEADING_1'' (''Intro'' @ [NL]),
                     heading_element 7 21 ''HEADING_2'' (''intro details'' @ [NL])]\<rparr>"

text \<open>
  The round trip. The text of a paragraph is the concatenation of its runs; a paragraph of the
  Docs API ends with a newline, and the text before it is the text of the block. The
  documents of the round trip statement: every run unstyled, the title and every block text a
  non-empty single line without white space at either end, and every paragraph that is not
  a heading free of a leading \<open>#\<close> and of bold and italic spans.
\<close>

definition paragraph_raw :: "Paragraph \<Rightarrow> string" where
  "paragraph_raw paragraph =
     concat (map (\<lambda>element. case ElemTextRun element of
                     None \<Rightarrow> [] | Some run \<Rightarrow> Content run)
                 (Elements paragraph))"

definition unstyled :: "Paragraph \<Rightarrow> bool" where
  "unstyled paragraph =
     list_all (\<lambda>element. case ElemTextRun element of
                  None \<Rightarrow> True
                | Some run \<Rightarrow>
                   (case RunTextStyle run of
                      None \<Rightarrow> True
                    | Some style \<Rightarrow> \<not> Bold style \<and> \<not> Italic style \<and> Link style = None))
              (Elements paragraph)"

definition heading_number :: "string \<Rightarrow> nat option" where
  "heading_number styleType =
     (if styleType = ''HEADING_1'' then Some 1
      else if styleType = ''HEADING_2'' then Some 2
      else if styleType = ''HEADING_3'' then Some 3
      else if styleType = ''HEADING_4'' then Some 4
      else if styleType = ''HEADING_5'' then Some 5
      else if styleType = ''HEADING_6'' then Some 6
      else None)"

definition paragraph_heading :: "Paragraph \<Rightarrow> nat option" where
  "paragraph_heading paragraph =
     (case ParaStyle paragraph of
        None \<Rightarrow> None
      | Some pstyle \<Rightarrow> heading_number (NamedStyleType pstyle))"

definition simple_text :: "string \<Rightarrow> bool" where
  "simple_text t = (t \<noteq> [] \<and> NL \<notin> set t \<and> TrimSpace t = t)"

definition plain_text :: "string \<Rightarrow> bool" where
  "plain_text t = (\<not> HasPrefix t ''#''
     \<and> FindAllStringSubmatchIndex boldRegex t = []
     \<and> FindAllStringSubmatchIndex italicRegex t = [])"

definition block_text :: "Paragraph \<Rightarrow> string" where
  "block_text paragraph = butlast (paragraph_raw paragraph)"

definition roundtrip_paragraph :: "Paragraph \<Rightarrow> bool" where
  "roundtrip_paragraph paragraph =
     (unstyled paragraph \<and> paragraph_raw paragraph \<noteq> [] \<and> last (paragraph_raw paragraph) = NL
      \<and> simple_text (block_text paragraph)
      \<and> (paragraph_heading paragraph = None \<longrightarrow> plain_text (block_text paragraph)))"

definition roundtrip_document :: "Document \<Rightarrow> bool" where
  "roundtrip_document doc =
     (simple_text (DocTitle doc)
      \<and> list_all (\<lambda>element. case ElemParagraph element of
                      None \<Rightarrow> False | Some paragraph \<Rightarrow> roundtrip_paragraph paragraph)
                  (BodyContent doc))"

text \<open>
  The requests a rendered block compiles to, as the round trip statement words them: the text and a
  newline are inserted at the cursor; a heading gets its style over the inserted range and
  is followed by one blank line, another paragraph by two; after the last block comes the
  insertion for the empty end of the input.
\<close>

definition block_requests :: "string \<Rightarrow> nat option \<Rightarrow> int64 \<Rightarrow> request list" where
  "block_requests t h c =
     (case h of
        Some n \<Rightarrow>
          [InsertText c (t @ [NL]),
           UpdateParagraphStyle c (c + of_nat (RuneCountInString t) + 1) (''HEADING_'' @ decimal n),
           InsertText (c + of_nat (RuneCountInString t) + 1) [NL]]
      | None \<Rightarrow>
          [InsertText c (t @ [NL]),
           InsertText (c + of_nat (RuneCountInString t) + 1) [NL],
           InsertText (c + of_nat (RuneCountInString t) + 2) [NL]])"

definition block_advance :: "string \<Rightarrow> nat option \<Rightarrow> int64" where
  "block_advance t h =
     of_nat (RuneCountInString t) + (case h of Some n \<Rightarrow> 2 | None \<Rightarrow> 3)"

fun roundtrip_requests :: "(string \<times> nat option) list \<Rightarrow> int64 \<Rightarrow> request list" where
  "roundtrip_requests [] c = [InsertText c [NL]]"
| "roundtrip_requests ((t, h) # blocks) c =
     block_requests t h c @ roundtrip_requests blocks (c + block_advance t h)"

definition element_block :: "StructuralElement \<Rightarrow> string \<times> nat option" where
  "element_block element =
     (case ElemParagraph element of
        None \<Rightarrow> ([], None)
      | Some paragraph \<Rightarrow> (block_text paragraph, paragraph_heading paragraph))"

definition document_blocks :: "Document \<Rightarrow> (string \<times> nat option) list" where
  "document_blocks doc = (DocTitle doc, Some 1) # map element_block (BodyContent doc)"

text \<open>
  The original content the claim compares with: the text of the body, the heading styles
  with their ranges; and what a list of requests inserts and styles. A list of requests has
  its styles follow its insertions when every paragraph style comes directly after an
  insertion and covers exactly the runes that insertion inserted.
\<close>

definition element_raw :: "StructuralElement \<Rightarrow> string" where
  "element_raw element =
     (case ElemParagraph element of None \<Rightarrow> [] | Some paragraph \<Rightarrow> paragraph_raw paragraph)"

definition element_heading_style :: "StructuralElement \<Rightarrow> string option" where
  "element_heading_style element =
     (case ElemParagraph element of
        None \<Rightarrow> None
      | Some paragraph \<Rightarrow>
         (case ParaStyle paragraph of
            None \<Rightarrow> None
          | Some pstyle \<Rightarrow>
             if heading_number (NamedStyleType pstyle) = None then None
             else Some (NamedStyleType pstyle)))"

definition document_text :: "Document \<Rightarrow> string" where
  "document_text doc = concat (map element_raw (BodyContent doc))"

definition document_headings :: "Document \<Rightarrow> (int64 \<times> int64 \<times> string) list" where
  "document_headings doc =
     List.map_filter (\<lambda>element. case element_heading_style element of
                         None \<Rightarrow> None
                       | Some st \<Rightarrow> Some (ElemStartIndex element, ElemEndIndex element, st))
       (BodyContent doc)"

definition inserted_texts :: "request list \<Rightarrow> string list" where
  "inserted_texts ops =
     List.map_filter (\<lambda>r. case r of InsertText i t \<Rightarrow> Some t | _ \<Rightarrow> None) ops"

definition paragraph_styles :: "request list \<Rightarrow> (int64 \<times> int64 \<times> string) list" where
  "paragraph_styles ops =
     List.map_filter (\<lambda>r. case r of UpdateParagraphStyle a b st \<Rightarrow> Some (a, b, st) | _ \<Rightarrow> None) ops"

fun styles_follow_inserts :: "request list \<Rightarrow> bool" where
  "styles_follow_inserts [] = True"
| "styles_follow_inserts (InsertText i t # UpdateParagraphStyle a b st # ops) =
     (a = i \<and> b = i + of_nat (RuneCountInString t) \<and> styles_follow_inserts ops)"
| "styles_follow_inserts (UpdateParagraphStyle a b st # ops) = False"
| "styles_follow_inserts (r # ops) = styles_follow_inserts ops"

text \<open>The document of the example: title \<open>T\<close>, a heading \<open>Intro\<close>, a paragraph \<open>Hello\<close>.\<close>

definition small_document :: Document where
  "small_document =
     \<lparr>DocTitle = ''T'',
      BodyContent =
        [heading_element 1 7 ''HEADING_1'' (''Intro'' @ [NL]),
         StructuralElement 7 13 (Some (text_paragraph [''Hello'' @ [NL]])) None]\<rparr>"



section \<open>UTF-8 and rune counts\<close>


lemma decode_ascii: "byte c < 0x80 \<Longrightarrow> DecodeRuneInString (c # s) = (byte c, 1)"
  by (simp add: Let_def)

lemma decode_size_pos: "s \<noteq> [] \<Longrightarrow> 0 < snd (DecodeRuneInString s)"
  by (cases s) (simp_all add: Let_def split: list.split)

lemma decode_size_le: "s \<noteq> [] \<Longrightarrow> snd (DecodeRuneInString s) \<le> length s"
  by (cases s) (simp_all add: Let_def split: list.split)

lemma accept_contb: "accept_lo b \<le> byte c \<Longrightarrow> byte c \<le> accept_hi b \<Longrightarrow> contb c"
  by (auto simp: accept_lo_def accept_hi_def contb_def split: if_splits)

lemma decode_append_ncont:
  assumes "x \<noteq> []" and "\<not> contb c"
  shows "DecodeRuneInString (x @ c # t) = DecodeRuneInString x"
proof -
  have nc: "byte c < accept_lo b \<or> accept_hi b < byte c" for b
    using assms(2) by (auto simp: accept_lo_def accept_hi_def contb_def)
  show ?thesis
  proof (cases x)
    case Nil with assms show ?thesis by simp
  next
    case (Cons a x1)
    show ?thesis
    proof (cases x1)
      case Nil with Cons nc show ?thesis by (simp add: Let_def)
    next
      case (Cons a1 x2)
      note c1 = this
      show ?thesis
      proof (cases x2)
        case Nil with c1 \<open>x = a # x1\<close> assms(2) show ?thesis by (simp add: Let_def)
      next
        case (Cons a2 x3)
        then show ?thesis using c1 \<open>x = a # x1\<close> assms(2)
          by (cases x3) (simp_all add: Let_def)
      qed
    qed
  qed
qed

lemma RuneCount_Nil [simp]: "RuneCountInString [] = 0"
  by (simp add: RuneCountInString.simps)

lemma RuneCount_ascii_Cons: "byte c < 0x80 \<Longrightarrow> RuneCountInString (c # s) = Suc (RuneCountInString s)"
  by (subst RuneCountInString.simps) (simp add: Let_def)

lemma RuneCount_append_ncont:
  "\<not> contb c \<Longrightarrow> RuneCountInString (x @ c # t) = RuneCountInString x + RuneCountInString (c # t)"
proof (induction x rule: RuneCountInString.induct)
  case (1 x)
  show ?case
  proof (cases "x = []")
    case True then show ?thesis by simp
  next
    case False
    let ?n = "snd (DecodeRuneInString x)"
    have n: "?n \<le> length x" using False by (rule decode_size_le)
    have d: "DecodeRuneInString (x @ c # t) = DecodeRuneInString x"
      using False "1.prems" by (rule decode_append_ncont)
    have "RuneCountInString (x @ c # t) = Suc (RuneCountInString (drop ?n (x @ c # t)))"
      by (subst RuneCountInString.simps) (simp add: d)
    also have "drop ?n (x @ c # t) = drop ?n x @ c # t" using n by simp
    also have "RuneCountInString (drop ?n x @ c # t) = RuneCountInString (drop ?n x) + RuneCountInString (c # t)"
      using "1.IH" [OF False "1.prems"] .
    also have "Suc (RuneCountInString (drop ?n x) + RuneCountInString (c # t)) = RuneCountInString x + RuneCountInString (c # t)"
      using False by (subst (2) RuneCountInString.simps) simp
    finally show ?thesis .
  qed
qed






section \<open>The matches of the two expressions\<close>












lemma single_line_requests:
  "NL \<notin> set line \<Longrightarrow> SplitLines line = [line]"
  by (induction line) (auto split: list.splits)

lemma compile_single_line:
  "NL \<notin> set line \<Longrightarrow> MarkdownToDocsRequests line s = fst (line_requests line s)"
  by (simp add: MarkdownToDocsRequests_def single_line_requests split: prod.splits)


section \<open>White space and \<open>TrimSpace\<close>\<close>

lemma not_space_RuneError: "\<not> IsSpace RuneError"
  by (simp add: IsSpace_def RuneError_def)

lemma decode_ok_append:
  assumes "v \<noteq> []" and "DecodeRuneInString v \<noteq> (RuneError, 1)"
  shows "DecodeRuneInString (v @ w) = DecodeRuneInString v"
proof (cases v)
  case Nil with assms show ?thesis by simp
next
  case c0: (Cons a0 v1)
  show ?thesis
  proof (cases v1)
    case Nil
    with c0 assms(2) show ?thesis by (simp add: Let_def split: if_splits)
  next
    case c1: (Cons a1 v2)
    show ?thesis
    proof (cases v2)
      case Nil
      with c0 c1 assms(2) show ?thesis by (simp add: Let_def split: if_splits)
    next
      case c2: (Cons a2 v3)
      show ?thesis
      proof (cases v3)
        case Nil
        with c0 c1 c2 assms(2) show ?thesis by (simp add: Let_def split: if_splits)
      next
        case (Cons a3 v4)
        with c0 c1 c2 show ?thesis by (simp add: Let_def)
      qed
    qed
  qed
qed

lemma decode_space_append:
  assumes "IsSpace (fst (DecodeRuneInString v))"
  shows "DecodeRuneInString (v @ w) = DecodeRuneInString v"
proof -
  from assms have "v \<noteq> []" using not_space_RuneError by (cases v) auto
  moreover from assms have "DecodeRuneInString v \<noteq> (RuneError, 1)"
    using not_space_RuneError by auto
  ultimately show ?thesis by (rule decode_ok_append)
qed

lemma decode_space_ne: "IsSpace (fst (DecodeRuneInString v)) \<Longrightarrow> v \<noteq> []"
  using not_space_RuneError by (cases v) auto

lemma decode_contb_head: "contb c \<Longrightarrow> DecodeRuneInString (c # s) = (RuneError, 1)"
  by (simp add: contb_def Let_def)

lemma decode_space_head: "IsSpace (fst (DecodeRuneInString (c # s))) \<Longrightarrow> \<not> contb c"
  using decode_contb_head [of c s] not_space_RuneError by auto

lemma TrimLeft_Nil [simp]: "TrimLeftSpace [] = []"
  by (simp add: TrimLeftSpace.simps)

lemma TrimRight_Nil [simp]: "TrimRightSpace [] = []"
  by (simp add: TrimRightSpace.simps)

lemma TrimLeft_step:
  "s \<noteq> [] \<Longrightarrow> TrimLeftSpace s =
     (if IsSpace (fst (DecodeRuneInString s))
      then TrimLeftSpace (drop (snd (DecodeRuneInString s)) s) else s)"
  by (subst TrimLeftSpace.simps) (simp add: split_beta)

lemma TrimRight_step:
  "s \<noteq> [] \<Longrightarrow> TrimRightSpace s =
     (if IsSpace (fst (DecodeLastRuneInString s))
      then TrimRightSpace (take (length s - snd (DecodeLastRuneInString s)) s) else s)"
  by (subst TrimRightSpace.simps) (simp add: split_beta)

lemma TrimLeft_space_append:
  "TrimLeftSpace w = [] \<Longrightarrow> TrimLeftSpace (w @ x) = TrimLeftSpace x"
proof (induction w rule: TrimLeftSpace.induct)
  case (1 w)
  show ?case
  proof (cases "w = []")
    case True then show ?thesis by simp
  next
    case False
    let ?d = "DecodeRuneInString w"
    from False "1.prems" have sp: "IsSpace (fst ?d)"
      by (simp add: TrimLeft_step split: if_splits)
    with False "1.prems" have rest: "TrimLeftSpace (drop (snd ?d) w) = []"
      by (simp add: TrimLeft_step)
    have d: "DecodeRuneInString (w @ x) = ?d" using sp by (rule decode_space_append)
    have le: "snd ?d \<le> length w" using False by (rule decode_size_le)
    have "TrimLeftSpace (w @ x) = TrimLeftSpace (drop (snd ?d) (w @ x))"
      using False sp by (simp add: TrimLeft_step [of "w @ x"] d)
    also have "drop (snd ?d) (w @ x) = drop (snd ?d) w @ x" using le by simp
    also have "TrimLeftSpace (drop (snd ?d) w @ x) = TrimLeftSpace x"
      using "1.IH" [OF False _ _ sp rest] by (metis prod.collapse)
    finally show ?thesis .
  qed
qed

lemma TrimLeft_suffix: "\<exists>k. TrimLeftSpace s = drop k s"
proof (induction s rule: TrimLeftSpace.induct)
  case (1 s)
  show ?case
  proof (cases "s = []")
    case True then show ?thesis by simp
  next
    case False
    show ?thesis
    proof (cases "IsSpace (fst (DecodeRuneInString s))")
      case True
      from "1.IH" [OF False _ _ True] obtain k
        where "TrimLeftSpace (drop (snd (DecodeRuneInString s)) s) = drop k (drop (snd (DecodeRuneInString s)) s)"
        by (metis prod.collapse)
      with False True show ?thesis by (auto simp: TrimLeft_step)
    next
      case False2: False
      with False have "TrimLeftSpace s = drop 0 s" by (simp add: TrimLeft_step)
      then show ?thesis by blast
    qed
  qed
qed

lemma TrimLeft_head:
  "TrimLeftSpace s \<noteq> [] \<Longrightarrow> \<not> IsSpace (fst (DecodeRuneInString (TrimLeftSpace s)))"
proof (induction s rule: TrimLeftSpace.induct)
  case (1 s)
  from "1.prems" have ne: "s \<noteq> []" by auto
  show ?case
  proof (cases "IsSpace (fst (DecodeRuneInString s))")
    case True
    with ne "1.prems" have "TrimLeftSpace (drop (snd (DecodeRuneInString s)) s) \<noteq> []"
      by (simp add: TrimLeft_step)
    with "1.IH" [OF ne _ _ True] have
      "\<not> IsSpace (fst (DecodeRuneInString (TrimLeftSpace (drop (snd (DecodeRuneInString s)) s))))"
      by (metis prod.collapse)
    with ne True show ?thesis by (simp add: TrimLeft_step)
  next
    case False
    with ne show ?thesis by (simp add: TrimLeft_step)
  qed
qed

lemma TrimLeft_fix:
  "s = [] \<or> \<not> IsSpace (fst (DecodeRuneInString s)) \<Longrightarrow> TrimLeftSpace s = s"
  by (cases "s = []") (auto simp: TrimLeft_step)

lemma TrimLeft_append_space:
  assumes w: "TrimLeftSpace w = []"
  shows "TrimLeftSpace (l @ w) = (if TrimLeftSpace l = [] then [] else TrimLeftSpace l @ w)"
proof (induction l rule: TrimLeftSpace.induct)
  case (1 l)
  show ?case
  proof (cases "l = []")
    case True with w show ?thesis by simp
  next
    case False
    let ?d = "DecodeRuneInString l"
    show ?thesis
    proof (cases "IsSpace (fst ?d)")
      case True
      have d: "DecodeRuneInString (l @ w) = ?d" using True by (rule decode_space_append)
      have le: "snd ?d \<le> length l" using False by (rule decode_size_le)
      have "TrimLeftSpace (l @ w) = TrimLeftSpace (drop (snd ?d) l @ w)"
        using False True le by (simp add: TrimLeft_step [of "l @ w"] d)
      also have "\<dots> = (if TrimLeftSpace (drop (snd ?d) l) = [] then []
                        else TrimLeftSpace (drop (snd ?d) l) @ w)"
        using "1.IH" [OF False _ _ True] by (metis prod.collapse)
      finally show ?thesis using False True by (simp add: TrimLeft_step [of l])
    next
      case nsp: False
      have "\<not> IsSpace (fst (DecodeRuneInString (l @ w)))"
      proof (cases w)
        case Nil with nsp show ?thesis by simp
      next
        case (Cons c t)
        from w Cons have "IsSpace (fst (DecodeRuneInString (c # t)))"
          by (simp add: TrimLeft_step split: if_splits)
        then have "\<not> contb c" by (rule decode_space_head)
        with False have "DecodeRuneInString (l @ c # t) = ?d" by (rule decode_append_ncont)
        with nsp Cons show ?thesis by simp
      qed
      with False nsp show ?thesis by (simp add: TrimLeft_step [of "l @ w"] TrimLeft_step [of l])
    qed
  qed
qed

lemma decode_take:
  assumes "v \<noteq> []" and "DecodeRuneInString v \<noteq> (RuneError, 1)"
  shows "DecodeRuneInString (take (snd (DecodeRuneInString v)) v) = DecodeRuneInString v"
proof -
  let ?n = "snd (DecodeRuneInString v)"
  let ?e = "take ?n v"
  have pos: "0 < ?n" using assms(1) by (rule decode_size_pos)
  have ne: "?e \<noteq> []" using assms(1) pos by (cases v) auto
  have "DecodeRuneInString ?e \<noteq> (RuneError, 1) \<and> DecodeRuneInString ?e = DecodeRuneInString v"
  proof (cases v)
    case Nil with assms show ?thesis by simp
  next
    case c0: (Cons a0 v1)
    show ?thesis
    proof (cases v1)
      case Nil
      with c0 assms(2) show ?thesis by (simp add: Let_def split: if_splits)
    next
      case c1: (Cons a1 v2)
      show ?thesis
      proof (cases v2)
        case Nil
        with c0 c1 assms(2) show ?thesis by (simp add: Let_def split: if_splits)
      next
        case c2: (Cons a2 v3)
        show ?thesis
        proof (cases v3)
          case Nil
          with c0 c1 c2 assms(2) show ?thesis by (simp add: Let_def split: if_splits)
        next
          case (Cons a3 v4)
          with c0 c1 c2 assms(2) show ?thesis by (simp add: Let_def split: if_splits)
        qed
      qed
    qed
  qed
  then show ?thesis by simp
qed

lemma decode_size_le4: "snd (DecodeRuneInString v) \<le> 4"
  by (cases v) (simp_all add: Let_def split: list.split)

lemma accept_range_contb:
  "\<not> (byte c < accept_lo b \<or> accept_hi b < byte c) \<Longrightarrow> contb c"
  by (auto simp: accept_lo_def accept_hi_def contb_def split: if_splits)

lemma lead_ncont: "0xC2 \<le> byte c \<Longrightarrow> \<not> contb c"
  by (simp add: contb_def)

lemma DecodeLast_ascii: "byte c < 0x80 \<Longrightarrow> DecodeLastRuneInString (y @ [c]) = (byte c, 1)"
  by (simp add: DecodeLastRuneInString_def)

lemma DecodeLast_full:
  assumes ne: "e \<noteq> []" and ok: "DecodeRuneInString e \<noteq> (RuneError, 1)"
    and full: "snd (DecodeRuneInString e) = length e"
  shows "DecodeLastRuneInString (y @ e) = DecodeRuneInString e"
proof (cases e)
  case Nil with ne show ?thesis by simp
next
  case c0: (Cons a0 e1)
  show ?thesis
  proof (cases e1)
    case Nil
    with c0 ok have "byte a0 < 0x80" by (simp add: Let_def split: if_splits)
    with c0 Nil show ?thesis by (simp add: DecodeLast_ascii)
  next
    case c1: (Cons a1 e2)
    from c0 c1 full have na: "\<not> byte a0 < 0x80" by (auto simp: Let_def)
    from c0 c1 ok na have lead: "0xC2 \<le> byte a0"
      by (auto simp: Let_def split: if_splits)
    then have n0: "\<not> contb a0" by (rule lead_ncont)
    from c0 c1 ok na lead have k1: "contb a1"
      by (auto simp: Let_def accept_range_contb split: if_splits)
    show ?thesis
    proof (cases e2)
      case Nil
      have st: "last_rune_start (y @ [a0, a1]) = length y"
        using n0 by (simp add: last_rune_start_def Let_def nth_append)
      have "\<not> byte a1 < 0x80" using k1 by (simp add: contb_def)
      with st c0 c1 Nil full show ?thesis
        by (simp add: DecodeLastRuneInString_def Let_def split_beta prod_eq_iff del: DecodeRuneInString.simps)
    next
      case c2: (Cons a2 e3)
      from c0 c1 c2 ok na lead full have k2: "contb a2"
        by (auto simp: Let_def split: if_splits)
      show ?thesis
      proof (cases e3)
        case Nil
        have st: "last_rune_start (y @ [a0, a1, a2]) = length y"
          using n0 k1 by (simp add: last_rune_start_def Let_def nth_append)
        have "\<not> byte a2 < 0x80" using k2 by (simp add: contb_def)
        with st c0 c1 c2 Nil full show ?thesis
          by (simp add: DecodeLastRuneInString_def Let_def split_beta prod_eq_iff del: DecodeRuneInString.simps)
      next
        case c3: (Cons a3 e4)
        from c0 c1 c2 c3 ok na lead full have k3: "contb a3"
          by (auto simp: Let_def split: if_splits)
        from full decode_size_le4 [of e] c0 c1 c2 c3 have e4: "e4 = []" by simp
        have st: "last_rune_start (y @ [a0, a1, a2, a3]) = length y"
          using n0 k1 k2 by (simp add: last_rune_start_def Let_def nth_append)
        have "\<not> byte a3 < 0x80" using k3 by (simp add: contb_def)
        with st c0 c1 c2 c3 e4 full show ?thesis
          by (simp add: DecodeLastRuneInString_def Let_def split_beta prod_eq_iff del: DecodeRuneInString.simps)
      qed
    qed
  qed
qed

lemma TrimRight_idem: "TrimRightSpace (TrimRightSpace s) = TrimRightSpace s"
proof (induction s rule: TrimRightSpace.induct)
  case (1 s)
  show ?case
  proof (cases "s = []")
    case True then show ?thesis by simp
  next
    case False
    show ?thesis
    proof (cases "IsSpace (fst (DecodeLastRuneInString s))")
      case True
      with False "1.IH" [OF False _ _ True] show ?thesis
        by (simp add: TrimRight_step [of s])
    next
      case nsp: False
      with False show ?thesis by (simp add: TrimRight_step [of s])
    qed
  qed
qed

lemma TrimRight_prefix: "\<exists>k. TrimRightSpace s = take k s"
proof (induction s rule: TrimRightSpace.induct)
  case (1 s)
  show ?case
  proof (cases "s = []")
    case True then show ?thesis by simp
  next
    case False
    show ?thesis
    proof (cases "IsSpace (fst (DecodeLastRuneInString s))")
      case True
      let ?t = "take (length s - snd (DecodeLastRuneInString s)) s"
      from "1.IH" [OF False _ _ True] obtain k where "TrimRightSpace ?t = take k ?t"
        by (metis prod.collapse)
      then have "TrimRightSpace ?t = take (min k (length s - snd (DecodeLastRuneInString s))) s"
        by (simp add: min.commute)
      with False True show ?thesis by (auto simp: TrimRight_step [of s])
    next
      case nsp: False
      with False have "TrimRightSpace s = take (length s) s" by (simp add: TrimRight_step [of s])
      then show ?thesis by blast
    qed
  qed
qed

lemma TrimRight_fix:
  "s = [] \<or> \<not> IsSpace (fst (DecodeLastRuneInString s)) \<Longrightarrow> TrimRightSpace s = s"
  by (cases "s = []") (auto simp: TrimRight_step)

lemma TrimRight_last:
  "TrimRightSpace s \<noteq> [] \<Longrightarrow> \<not> IsSpace (fst (DecodeLastRuneInString (TrimRightSpace s)))"
proof (induction s rule: TrimRightSpace.induct)
  case (1 s)
  from "1.prems" have ne: "s \<noteq> []" by auto
  show ?case
  proof (cases "IsSpace (fst (DecodeLastRuneInString s))")
    case True
    let ?t = "take (length s - snd (DecodeLastRuneInString s)) s"
    from ne True "1.prems" have "TrimRightSpace ?t \<noteq> []"
      by (simp add: TrimRight_step [of s])
    with "1.IH" [OF ne _ _ True] have
      "\<not> IsSpace (fst (DecodeLastRuneInString (TrimRightSpace ?t)))"
      by (metis prod.collapse)
    with ne True show ?thesis by (simp add: TrimRight_step [of s])
  next
    case False
    with ne show ?thesis by (simp add: TrimRight_step [of s])
  qed
qed

text \<open>A non-empty string of white space ends with the encoding of a white space rune.\<close>

lemma space_string_snoc:
  "w \<noteq> [] \<Longrightarrow> TrimLeftSpace w = [] \<Longrightarrow>
     \<exists>w' e. w = w' @ e \<and> e \<noteq> [] \<and> IsSpace (fst (DecodeRuneInString e))
        \<and> snd (DecodeRuneInString e) = length e \<and> TrimLeftSpace w' = []"
proof (induction w rule: TrimLeftSpace.induct)
  case (1 w)
  let ?d = "DecodeRuneInString w"
  let ?e = "take (snd ?d) w"
  let ?r = "drop (snd ?d) w"
  from "1.prems" have ne: "w \<noteq> []" by simp
  from "1.prems" have sp: "IsSpace (fst ?d)" by (simp add: TrimLeft_step split: if_splits)
  with "1.prems" have rest: "TrimLeftSpace ?r = []" by (simp add: TrimLeft_step)
  have ok: "?d \<noteq> (RuneError, 1)" using sp not_space_RuneError by auto
  have de: "DecodeRuneInString ?e = ?d" using ne ok by (rule decode_take)
  have le: "snd ?d \<le> length w" using ne by (rule decode_size_le)
  have pos: "0 < snd ?d" using ne by (rule decode_size_pos)
  have ene: "?e \<noteq> []" using ne pos by (cases w) auto
  have elen: "snd (DecodeRuneInString ?e) = length ?e" using de le by simp
  have esp: "IsSpace (fst (DecodeRuneInString ?e))" using de sp by simp
  have etrim: "TrimLeftSpace ?e = []"
    using ene esp elen by (simp add: TrimLeft_step [of ?e])
  show ?case
  proof (cases "?r = []")
    case True
    then have "w = [] @ ?e" by (metis append_Nil append_Nil2 append_take_drop_id)
    with ene esp elen show ?thesis by (metis TrimLeft_Nil)
  next
    case False
    from "1.IH" [OF ne _ _ sp False rest] obtain w' e where
      r: "?r = w' @ e" and e: "e \<noteq> []" "IsSpace (fst (DecodeRuneInString e))"
        "snd (DecodeRuneInString e) = length e" and w': "TrimLeftSpace w' = []"
      by (metis prod.collapse)
    have "w = (?e @ w') @ e" using r by (metis append_assoc append_take_drop_id)
    moreover have "TrimLeftSpace (?e @ w') = []"
      using TrimLeft_space_append [OF etrim, of w'] w' by simp
    ultimately show ?thesis using e by blast
  qed
qed

lemma TrimRight_append_space:
  "TrimLeftSpace w = [] \<Longrightarrow> TrimRightSpace (x @ w) = TrimRightSpace x"
proof (induction "length w" arbitrary: w rule: less_induct)
  case less
  show ?case
  proof (cases "w = []")
    case True then show ?thesis by simp
  next
    case False
    from space_string_snoc [OF False less.prems] obtain w' e where
      w: "w = w' @ e" and e: "e \<noteq> []" "IsSpace (fst (DecodeRuneInString e))"
        "snd (DecodeRuneInString e) = length e" and w': "TrimLeftSpace w' = []"
      by blast
    have ok: "DecodeRuneInString e \<noteq> (RuneError, 1)" using e(2) not_space_RuneError by auto
    have dl: "DecodeLastRuneInString ((x @ w') @ e) = DecodeRuneInString e"
      using e(1) ok e(3) by (rule DecodeLast_full)
    have "TrimRightSpace (x @ w) = TrimRightSpace (x @ w')"
      using e dl by (simp add: w TrimRight_step [of "x @ w' @ e"])
    also have "\<dots> = TrimRightSpace x"
      using less.hyps [of w'] w' w e(1) by simp
    finally show ?thesis .
  qed
qed

lemma TrimSpace_idem: "TrimSpace (TrimSpace s) = TrimSpace s"
proof -
  let ?u = "TrimLeftSpace s"
  let ?v = "TrimRightSpace ?u"
  obtain k where k: "?v = take k ?u" using TrimRight_prefix by blast
  have "TrimLeftSpace ?v = ?v"
  proof (cases "?v = []")
    case True then show ?thesis by simp
  next
    case False
    then have une: "?u \<noteq> []" by auto
    have "\<not> IsSpace (fst (DecodeRuneInString ?v))"
    proof
      assume sp: "IsSpace (fst (DecodeRuneInString ?v))"
      have "DecodeRuneInString (?v @ drop k ?u) = DecodeRuneInString ?v"
        using sp by (rule decode_space_append)
      then have "DecodeRuneInString ?u = DecodeRuneInString ?v" by (simp add: k)
      with sp TrimLeft_head [OF une] show False by simp
    qed
    then show ?thesis by (simp add: TrimLeft_fix)
  qed
  then show ?thesis by (simp add: TrimSpace_def TrimRight_idem)
qed

lemma TrimSpace_pad:
  assumes "TrimLeftSpace w1 = []" and "TrimLeftSpace w2 = []"
  shows "TrimSpace (w1 @ l @ w2) = TrimSpace l"
proof -
  have "TrimLeftSpace (w1 @ l @ w2) = TrimLeftSpace (l @ w2)"
    using assms(1) by (rule TrimLeft_space_append)
  also have "\<dots> = (if TrimLeftSpace l = [] then [] else TrimLeftSpace l @ w2)"
    using assms(2) by (rule TrimLeft_append_space)
  finally show ?thesis
    using TrimRight_append_space [OF assms(2), of "TrimLeftSpace l"]
    by (simp add: TrimSpace_def)
qed

lemma TrimSpace_space: "TrimLeftSpace w = [] \<Longrightarrow> TrimSpace w = []"
  by (simp add: TrimSpace_def)

lemma TrimSpace_subset: "set (TrimSpace s) \<subseteq> set s"
proof -
  obtain k where "TrimLeftSpace s = drop k s" using TrimLeft_suffix by blast
  moreover obtain j where "TrimRightSpace (TrimLeftSpace s) = take j (TrimLeftSpace s)"
    using TrimRight_prefix by blast
  ultimately show ?thesis
    by (metis TrimSpace_def set_drop_subset set_take_subset subset_trans)
qed

section \<open>The loop body of the compiler on one line\<close>

lemma all_space_iff: "all_space s \<longleftrightarrow> TrimLeftSpace s = []"
proof (induction s rule: TrimLeftSpace.induct)
  case (1 s)
  show ?case
  proof (cases "s = []")
    case True then show ?thesis by (simp add: all_space.simps)
  next
    case False
    show ?thesis
    proof (cases "IsSpace (fst (DecodeRuneInString s))")
      case True
      from "1.IH" [OF False _ _ True]
      have "all_space (drop (snd (DecodeRuneInString s)) s)
          \<longleftrightarrow> TrimLeftSpace (drop (snd (DecodeRuneInString s)) s) = []"
        by (metis prod.collapse)
      with False True show ?thesis
        by (subst all_space.simps) (simp add: split_beta TrimLeft_step [of s])
    next
      case nsp: False
      with False show ?thesis
        by (subst all_space.simps) (simp add: split_beta TrimLeft_step [of s])
    qed
  qed
qed

lemma heading_level_hashes:
  "rest = [] \<or> hd rest \<noteq> CHR ''#'' \<Longrightarrow> heading_level (hashes n @ rest) = n"
proof -
  assume r: "rest = [] \<or> hd rest \<noteq> CHR ''#''"
  have "takeWhile (\<lambda>c. c = CHR ''#'') (replicate n (CHR ''#'') @ rest)
      = replicate n (CHR ''#'') @ takeWhile (\<lambda>c. c = CHR ''#'') rest"
    by (rule takeWhile_append2) simp
  moreover have "takeWhile (\<lambda>c. c = CHR ''#'') rest = []" using r by (cases rest) auto
  ultimately show ?thesis by (simp add: heading_level_def hashes_def)
qed

lemma decimal_digit: "n < 10 \<Longrightarrow> decimal n = [digit_char n]"
  by (subst decimal.simps) simp

lemma HasPrefix_hashes: "1 \<le> n \<Longrightarrow> HasPrefix (hashes n @ rest) ''#''"
  by (cases n) (simp_all add: HasPrefix_def hashes_def)

lemma heading_requests:
  assumes "TrimSpace line0 = hashes n @ rest" and "1 \<le> n" and "n \<le> 6"
    and "rest = [] \<or> hd rest \<noteq> CHR ''#''"
  shows "line_requests line0 c =
     ([InsertText c (TrimSpace rest @ [NL]),
       UpdateParagraphStyle c (c + of_nat (RuneCountInString (TrimSpace rest)) + 1)
         (''HEADING_'' @ [digit_char n])],
      c + of_nat (RuneCountInString (TrimSpace rest)) + 1)"
proof -
  from assms(2) have ne: "hashes n @ rest \<noteq> []" by (cases n) (simp_all add: hashes_def)
  have lv: "heading_level (hashes n @ rest) = n" using assms(4) by (rule heading_level_hashes)
  have ln: "length (hashes n) = n" by (simp add: hashes_def)
  have dr: "drop n (hashes n @ rest) = rest" using ln by simp
  have dc: "decimal n = [digit_char n]" using assms(3) by (simp add: decimal_digit)
  show ?thesis
    using ne HasPrefix_hashes [OF assms(2), of rest]
    by (simp add: line_requests_def assms(1) Let_def lv dr dc del: drop_append)
qed

lemma line_requests_trim: "line_requests (TrimSpace l) c = line_requests l c"
  by (simp add: line_requests_def TrimSpace_idem)

lemma legacy_line_requests_trim: "legacy_line_requests (TrimSpace l) c = legacy_line_requests l c"
  by (simp add: legacy_line_requests_def TrimSpace_idem)

lemma compile_lines_trim:
  "compile_lines (map TrimSpace ls) reqs c = compile_lines ls reqs c"
  by (induction ls arbitrary: reqs c) (simp_all add: line_requests_trim split: prod.splits)

lemma legacy_compile_lines_trim:
  "legacy_compile_lines (map TrimSpace ls) reqs c = legacy_compile_lines ls reqs c"
  by (induction ls arbitrary: reqs c)
    (simp_all add: legacy_line_requests_trim split: option.splits prod.splits)

lemma blank_line_requests:
  "TrimSpace line = [] \<Longrightarrow> line_requests line c = ([InsertText c [NL]], c + 1)"
  by (simp add: line_requests_def)

lemma legacy_blank_line_requests:
  "TrimSpace line = [] \<Longrightarrow> legacy_line_requests line c = Some ([InsertText c [NL]], c + 1)"
  by (simp add: legacy_line_requests_def)

lemma padded_line_requests:
  assumes "all_space w1" and "all_space w2"
  shows "line_requests (w1 @ line @ w2) c = line_requests line c"
    and "legacy_line_requests (w1 @ line @ w2) c = legacy_line_requests line c"
proof -
  have "TrimSpace (w1 @ line @ w2) = TrimSpace line"
    using assms by (simp add: all_space_iff TrimSpace_pad)
  then show "line_requests (w1 @ line @ w2) c = line_requests line c"
    and "legacy_line_requests (w1 @ line @ w2) c = legacy_line_requests line c"
    by (simp_all add: line_requests_def legacy_line_requests_def)
qed

section \<open>The two copies of the compiler\<close>

lemma RuneCount_ascii: "ascii_only s \<Longrightarrow> RuneCountInString s = length s"
  by (induction s) (simp_all add: ascii_only_def RuneCount_ascii_Cons)

lemma ascii_only_subset: "ascii_only s \<Longrightarrow> set t \<subseteq> set s \<Longrightarrow> ascii_only t"
  by (auto simp: ascii_only_def list_all_iff)

lemma ascii_only_TrimSpace: "ascii_only s \<Longrightarrow> ascii_only (TrimSpace s)"
  using TrimSpace_subset [of s] by (auto elim: ascii_only_subset)

lemma ascii_only_drop: "ascii_only s \<Longrightarrow> ascii_only (drop n s)"
  using set_drop_subset [of n s] by (auto elim: ascii_only_subset)

lemma SplitLines_set: "l \<in> set (SplitLines md) \<Longrightarrow> set l \<subseteq> set md"
proof (induction md arbitrary: l)
  case Nil then show ?case by simp
next
  case (Cons c md)
  show ?case
  proof (cases "c = NL")
    case True
    with Cons show ?thesis by auto
  next
    case False
    show ?thesis
    proof (cases "SplitLines md")
      case Nil
      with False Cons.prems show ?thesis by auto
    next
      case (Cons l1 ls)
      with False Cons.prems have "l = c # l1 \<or> l \<in> set ls" by auto
      moreover have "set l1 \<subseteq> set md" using Cons.IH [of l1] Cons by simp
      moreover have "l \<in> set ls \<Longrightarrow> set l \<subseteq> set md" using Cons.IH [of l] Cons by simp
      ultimately show ?thesis by auto
    qed
  qed
qed

lemma SplitLines_ascii: "ascii_only md \<Longrightarrow> l \<in> set (SplitLines md) \<Longrightarrow> ascii_only l"
  using SplitLines_set ascii_only_subset by blast

lemma no_match_replace: "FindAllStringSubmatchIndex re t = [] \<Longrightarrow> ReplaceAllString re t = t"
  by (simp add: FindAllStringSubmatchIndex_def ReplaceAllString_def)

lemma no_match_parse:
  assumes "FindAllStringSubmatchIndex boldRegex t = []"
    and "FindAllStringSubmatchIndex italicRegex t = []"
  shows "parseInlineFormatting t c = (t, [])"
    and "legacy_parseInlineFormatting t c = Some (t, [])"
  using assms
  by (simp_all add: parseInlineFormatting_def legacy_parseInlineFormatting_def
      no_match_replace Let_def)

lemma plain_line_agree:
  assumes a: "ascii_only line" and p: "plain_line line"
  shows "legacy_line_requests line c = Some (line_requests line c)"
proof -
  let ?t = "TrimSpace line"
  have at: "ascii_only ?t" using a by (rule ascii_only_TrimSpace)
  show ?thesis
  proof (cases "?t = []")
    case True
    then show ?thesis by (simp add: blank_line_requests legacy_blank_line_requests)
  next
    case False
    show ?thesis
    proof (cases "HasPrefix ?t ''#''")
      case True
      have "ascii_only (TrimSpace (drop (heading_level ?t) ?t))"
        by (rule ascii_only_TrimSpace) (rule ascii_only_drop [OF at])
      then have "RuneCountInString (TrimSpace (drop (heading_level ?t) ?t))
          = length (TrimSpace (drop (heading_level ?t) ?t))"
        by (rule RuneCount_ascii)
      with False True show ?thesis
        by (simp add: line_requests_def legacy_line_requests_def Let_def)
    next
      case nh: False
      from p False nh have nm: "FindAllStringSubmatchIndex boldRegex ?t = []"
        "FindAllStringSubmatchIndex italicRegex ?t = []"
        by (simp_all add: plain_line_def Let_def)
      have "RuneCountInString ?t = length ?t" using at by (rule RuneCount_ascii)
      with False nh show ?thesis
        by (simp add: line_requests_def legacy_line_requests_def Let_def no_match_parse [OF nm])
    qed
  qed
qed

lemma plain_lines_agree:
  "\<forall>l \<in> set ls. ascii_only l \<and> plain_line l \<Longrightarrow>
     legacy_compile_lines ls reqs c = Some (compile_lines ls reqs c)"
  by (induction ls arbitrary: reqs c) (simp_all add: plain_line_agree split: prod.splits)

lemma line_requests_cursor:
  "\<exists>t reqs. line_requests line c
      = (InsertText c (t @ [NL]) # reqs, c + of_nat (RuneCountInString t) + 1)"
proof -
  have "line_requests line c = (InsertText c ([] @ [NL]) # [], c + of_nat (RuneCountInString []) + 1)"
    if "TrimSpace line = []"
    using that by (simp add: line_requests_def)
  then show ?thesis
    by (cases "TrimSpace line = []") (auto simp: line_requests_def Let_def split_beta)
qed

section \<open>Colours\<close>

lemma hex_digit_facts:
  assumes "hex_digit c"
  shows "is_digit 16 c" and "c \<noteq> CHR ''_''" and "c \<noteq> CHR ''+''" and "c \<noteq> CHR ''-''"
    and "byte c < 0x80" and "\<not> IsSpace (byte c)" and "byte c \<noteq> 0x0A"
    and "digit_value c < 16"
  using assms
  by (auto simp: hex_digit_def is_digit_def Let_def byte_def IsSpace_def digit_value_def)

lemma skip_space_hex: "hex_digit c \<Longrightarrow> skip_space (c # s) = Some (c # s)"
  using hex_digit_facts [of c]
  by (subst skip_space.simps) (simp add: decode_ascii)

lemma scan_int_hex2:
  assumes "hex_digit h" and "hex_digit l"
  shows "scan_int 16 2 (h # l # s) = Some (hex_pair h l, s)"
proof -
  have td: "take_digits 16 2 (h # l # s) = ([h, l], s)"
    using hex_digit_facts(1) [OF assms(1)] hex_digit_facts(1) [OF assms(2)]
    by (simp add: numeral_2_eq_2)
  have v: "digit_value h * 16 + digit_value l < 256"
    using hex_digit_facts(8) [OF assms(1)] hex_digit_facts(8) [OF assms(2)] by simp
  have "int (digit_value h * 16 + digit_value l) < 2 ^ 63"
    using v by simp
  moreover have "- (2 ^ 63) \<le> int (digit_value h * 16 + digit_value l)"
    by simp
  ultimately show ?thesis
    using hex_digit_facts(2-4) [OF assms(1)] hex_digit_facts(2) [OF assms(2)]
    by (simp add: scan_int_def skip_space_hex [OF assms(1)] td hex_pair_def Let_def
        del: take_digits.simps)
qed

lemma Sscanf_rgb_hex:
  assumes "list_all hex_digit [a, b, c, d, e, f]"
  shows "Sscanf_rgb [a, b, c, d, e, f] = (hex_pair a b, hex_pair c d, hex_pair e f)"
  using assms by (simp add: Sscanf_rgb_def scan_int_hex2)

lemma TrimPrefix_hash: "TrimPrefix (CHR ''#'' # s) ''#'' = s"
  by (simp add: TrimPrefix_def HasPrefix_def)

lemma TrimPrefix_none: "\<not> HasPrefix s ''#'' \<Longrightarrow> TrimPrefix s ''#'' = s"
  by (simp add: TrimPrefix_def)

lemma ParseColor_None: "ParseColor s = None \<longleftrightarrow> length (TrimPrefix s ''#'') \<noteq> 6"
  by (simp add: ParseColor_def Let_def)

section \<open>Tables\<close>

lemma table_rows_later: "table_rows (Suc k) rows = concat (map row_line rows)"
  by (induction rows arbitrary: k) (simp_all add: row_line_def)

lemma tableToMarkdown_closed:
  "tableToMarkdown (Table rows) =
     (case rows of
        [] \<Rightarrow> [NL]
      | row # rest \<Rightarrow> row_line row @ separator_line row @ concat (map row_line rest) @ [NL])"
  by (cases rows)
    (simp_all add: tableToMarkdown_def table_rows_later row_line_def separator_line_def)

lemma SplitLines_append_NL: "NL \<notin> set a \<Longrightarrow> SplitLines (a @ NL # b) = a # SplitLines b"
  by (induction a) auto

lemma row_line_2:
  "row_line (TableRow [c1, c2])
     = (''| '' @ getTableCellText c1 @ '' | '' @ getTableCellText c2 @ '' |'') @ [NL]"
  by (simp add: row_line_def)

lemma separator_line_2: "separator_line (TableRow [c1, c2]) = ''| --- | --- |'' @ [NL]"
  by (simp add: separator_line_def)

lemma pipes_row:
  assumes "CHR ''|'' \<notin> set t1" and "CHR ''|'' \<notin> set t2"
  shows "pipes (''| '' @ t1 @ '' | '' @ t2 @ '' |'') = 3"
  using assms by (simp add: pipes_def)

lemma two_by_two:
  assumes "\<forall>cell \<in> set [c11, c12, c21, c22].
      NL \<notin> set (getTableCellText cell) \<and> CHR ''|'' \<notin> set (getTableCellText cell)"
  shows "nonblank_lines (tableToMarkdown (Table [TableRow [c11, c12], TableRow [c21, c22]]))
     = [''| '' @ getTableCellText c11 @ '' | '' @ getTableCellText c12 @ '' |'',
        ''| --- | --- |'',
        ''| '' @ getTableCellText c21 @ '' | '' @ getTableCellText c22 @ '' |'']"
    and "map pipes (nonblank_lines
        (tableToMarkdown (Table [TableRow [c11, c12], TableRow [c21, c22]]))) = [3, 3, 3]"
proof -
  let ?l1 = "''| '' @ getTableCellText c11 @ '' | '' @ getTableCellText c12 @ '' |''"
  let ?l2 = "''| --- | --- |''"
  let ?l3 = "''| '' @ getTableCellText c21 @ '' | '' @ getTableCellText c22 @ '' |''"
  have n1: "NL \<notin> set ?l1" and n3: "NL \<notin> set ?l3" using assms by auto
  have n2: "NL \<notin> set ?l2" by simp
  have out: "tableToMarkdown (Table [TableRow [c11, c12], TableRow [c21, c22]])
      = ?l1 @ NL # ?l2 @ NL # ?l3 @ NL # [NL]"
    by (simp add: tableToMarkdown_closed row_line_2 separator_line_2)
  have "SplitLines (?l1 @ NL # ?l2 @ NL # ?l3 @ NL # [NL]) = [?l1, ?l2, ?l3, [], []]"
    by (simp only: SplitLines_append_NL [OF n1] SplitLines_append_NL [OF n2]
        SplitLines_append_NL [OF n3]) simp
  with out show nb: "nonblank_lines (tableToMarkdown (Table [TableRow [c11, c12], TableRow [c21, c22]]))
     = [?l1, ?l2, ?l3]"
    by (simp add: nonblank_lines_def)
  have "pipes ?l1 = 3" "pipes ?l3 = 3" using assms by (simp_all add: pipes_def)
  moreover have "pipes ?l2 = 3" by (simp add: pipes_def)
  ultimately show "map pipes (nonblank_lines
        (tableToMarkdown (Table [TableRow [c11, c12], TableRow [c21, c22]]))) = [3, 3, 3]"
    by (simp only: nb list.map)
qed

section \<open>Paragraphs\<close>

lemma DecodeLast_whole:
  assumes "u \<noteq> []" and "length u \<le> snd (DecodeLastRuneInString u)"
  shows "DecodeRuneInString u = DecodeLastRuneInString u"
proof (cases "byte (last u) < 0x80")
  case True
  with assms have "length u = 1" by (cases u) (auto simp: DecodeLastRuneInString_def)
  then obtain c where "u = [c]" by (cases u) auto
  with True show ?thesis by (simp add: DecodeLastRuneInString_def)
next
  case False
  let ?st = "last_rune_start u"
  show ?thesis
  proof (cases "?st + snd (DecodeRuneInString (drop ?st u)) = length u")
    case True
    with False assms have "length u \<le> snd (DecodeRuneInString (drop ?st u))"
      by (simp add: DecodeLastRuneInString_def Let_def split_beta)
    with True have "?st = 0" by simp
    with True False assms show ?thesis
      by (simp add: DecodeLastRuneInString_def Let_def split_beta prod_eq_iff)
  next
    case ne: False
    with False assms have "length u \<le> 1"
      by (simp add: DecodeLastRuneInString_def Let_def split_beta)
    with assms(1) obtain c where u: "u = [c]" by (cases u) auto
    with False show ?thesis
      by (simp add: DecodeLastRuneInString_def Let_def last_rune_start_def)
  qed
qed

lemma TrimRight_empty:
  "u \<noteq> [] \<Longrightarrow> TrimRightSpace u = [] \<Longrightarrow> IsSpace (fst (DecodeRuneInString u))"
proof (induction u rule: TrimRightSpace.induct)
  case (1 u)
  let ?d = "DecodeLastRuneInString u"
  let ?t = "take (length u - snd ?d) u"
  from "1.prems" have sp: "IsSpace (fst ?d)"
    by (auto simp: TrimRight_step [of u] split: if_splits)
  with "1.prems" have tr: "TrimRightSpace ?t = []" by (simp add: TrimRight_step [of u])
  show ?case
  proof (cases "?t = []")
    case True
    with "1.prems"(1) have "length u \<le> snd ?d" by (cases u) (auto split: if_splits)
    with "1.prems"(1) have "DecodeRuneInString u = ?d" by (rule DecodeLast_whole)
    with sp show ?thesis by simp
  next
    case False
    from "1.IH" [OF "1.prems"(1) _ _ sp False tr]
    have "IsSpace (fst (DecodeRuneInString ?t))" by (metis prod.collapse)
    then have "DecodeRuneInString (?t @ drop (length u - snd ?d) u) = DecodeRuneInString ?t"
      by (rule decode_space_append)
    with \<open>IsSpace (fst (DecodeRuneInString ?t))\<close> show ?thesis by simp
  qed
qed

lemma TrimSpace_empty_iff: "TrimSpace s = [] \<longleftrightarrow> all_space s"
proof
  assume "all_space s"
  then show "TrimSpace s = []" by (simp add: all_space_iff TrimSpace_space)
next
  assume e: "TrimSpace s = []"
  show "all_space s"
  proof (rule ccontr)
    assume "\<not> all_space s"
    then have ne: "TrimLeftSpace s \<noteq> []" by (simp add: all_space_iff)
    from e have "TrimRightSpace (TrimLeftSpace s) = []" by (simp add: TrimSpace_def)
    with ne have "IsSpace (fst (DecodeRuneInString (TrimLeftSpace s)))" by (rule TrimRight_empty)
    with TrimLeft_head [OF ne] show False by simp
  qed
qed

section \<open>Sections\<close>

lemma byte_inj: "byte c = byte d \<longleftrightarrow> c = d"
  by (simp add: byte_def)

lemma rune_fold_eq_ascii:
  assumes "byte c < 0x80" and "byte d < 0x80"
  shows "rune_fold_eq orbit (byte c) (byte d) \<longleftrightarrow> lower_byte c = lower_byte d"
  using assms
  by (auto simp: rune_fold_eq_def lower_byte_def Let_def min_def max_def byte_inj)

lemma EqualFold_Nil: "EqualFold orbit [] t \<longleftrightarrow> t = []"
  by (subst EqualFold.simps) simp

lemma EqualFold_Cons_Nil: "\<not> EqualFold orbit (c # s) []"
  by (subst EqualFold.simps) simp

lemma EqualFold_ascii_Cons:
  assumes "byte c < 0x80" and "byte d < 0x80"
  shows "EqualFold orbit (c # s) (d # t) \<longleftrightarrow> lower_byte c = lower_byte d \<and> EqualFold orbit s t"
  using assms
  by (subst EqualFold.simps) (simp add: decode_ascii rune_fold_eq_ascii del: DecodeRuneInString.simps)

lemma EqualFold_ascii:
  "ascii_only s \<Longrightarrow> ascii_only t \<Longrightarrow>
     EqualFold orbit s t \<longleftrightarrow> map lower_byte s = map lower_byte t"
proof (induction s arbitrary: t)
  case Nil
  then show ?case by (simp add: EqualFold_Nil)
next
  case (Cons c s)
  show ?case
  proof (cases t)
    case Nil
    then show ?thesis by (simp add: EqualFold_Cons_Nil)
  next
    case (Cons d t')
    with Cons.prems have "byte c < 0x80" "byte d < 0x80" "ascii_only s" "ascii_only t'"
      by (simp_all add: ascii_only_def)
    with Cons Cons.IH [of t'] show ?thesis by (simp add: EqualFold_ascii_Cons)
  qed
qed

lemma structure_loop_closed:
  "structure_loop elements sections = sections @ List.map_filter element_section elements"
  by (induction elements arbitrary: sections) (simp_all add: List.map_filter_simps split: option.splits)

lemma GetStructure_closed: "GetStructure doc = List.map_filter element_section (BodyContent doc)"
  by (simp add: GetStructure_def structure_loop_closed)

lemma find_loop_None:
  "find_loop orbit name sections = None \<longleftrightarrow> (\<forall>sec \<in> set sections. \<not> EqualFold orbit (Title sec) name)"
  by (induction sections) simp_all

lemma find_loop_Some:
  "find_loop orbit name sections = Some sec \<Longrightarrow>
     \<exists>i < length sections. sections ! i = sec \<and> EqualFold orbit (Title sec) name
        \<and> (\<forall>j < i. \<not> EqualFold orbit (Title (sections ! j)) name)"
proof (induction sections)
  case Nil
  then show ?case by simp
next
  case (Cons a sections)
  show ?case
  proof (cases "EqualFold orbit (Title a) name")
    case True
    with Cons.prems have "a = sec" by simp
    with True show ?thesis by (intro exI [of _ 0]) simp
  next
    case False
    with Cons obtain i where i: "i < length sections" "sections ! i = sec"
      "EqualFold orbit (Title sec) name" "\<forall>j < i. \<not> EqualFold orbit (Title (sections ! j)) name"
      by auto
    have "\<forall>j < Suc i. \<not> EqualFold orbit (Title ((a # sections) ! j)) name"
      using False i(4) by (auto simp: less_Suc_eq_0_disj)
    with i show ?thesis by (intro exI [of _ "Suc i"]) simp
  qed
qed

section \<open>Trimming a text that ends in a trimmed text\<close>

lemma full_rune_bytes:
  assumes ne: "e \<noteq> []" and ok: "DecodeRuneInString e \<noteq> (RuneError, 1)"
    and full: "snd (DecodeRuneInString e) = length e" and na: "\<not> byte (last e) < 0x80"
  shows "\<forall>c \<in> set e. \<not> byte c < 0x80"
proof (cases e)
  case Nil with ne show ?thesis by simp
next
  case c0: (Cons a0 e1)
  show ?thesis
  proof (cases e1)
    case Nil
    with c0 na show ?thesis by simp
  next
    case c1: (Cons a1 e2)
    from c0 c1 full have n0: "\<not> byte a0 < 0x80" by (auto simp: Let_def)
    from c0 c1 ok n0 have lead: "0xC2 \<le> byte a0"
      by (auto simp: Let_def split: if_splits)
    from c0 c1 ok n0 lead have k1: "contb a1"
      by (auto simp: Let_def accept_range_contb split: if_splits)
    show ?thesis
    proof (cases e2)
      case Nil
      with c0 c1 n0 k1 show ?thesis by (simp add: contb_def)
    next
      case c2: (Cons a2 e3)
      from c0 c1 c2 ok n0 lead full have k2: "contb a2"
        by (auto simp: Let_def split: if_splits)
      show ?thesis
      proof (cases e3)
        case Nil
        with c0 c1 c2 n0 k1 k2 show ?thesis by (simp add: contb_def)
      next
        case c3: (Cons a3 e4)
        from c0 c1 c2 c3 ok n0 lead full have k3: "contb a3"
          by (auto simp: Let_def split: if_splits)
        from full decode_size_le4 [of e] c0 c1 c2 c3 have e4: "e4 = []" by simp
        with c0 c1 c2 c3 n0 k1 k2 k3 show ?thesis by (simp add: contb_def)
      qed
    qed
  qed
qed

lemma last_rune_start_lt: "s \<noteq> [] \<Longrightarrow> last_rune_start s < length s"
  by (cases s) (auto simp: last_rune_start_def Let_def)

lemma DecodeLast_space_append:
  assumes t: "t \<noteq> []" and x: "x = [] \<or> byte (last x) < 0x80"
    and sp: "IsSpace (fst (DecodeLastRuneInString (x @ t)))"
  shows "IsSpace (fst (DecodeLastRuneInString t))"
proof (cases "byte (last t) < 0x80")
  case True
  with t sp show ?thesis by (simp add: DecodeLastRuneInString_def)
next
  case False
  define s where "s = x @ t"
  define st where "st = last_rune_start s"
  define e where "e = drop st s"
  have sne: "s \<noteq> []" using t by (simp add: s_def)
  have ls: "last s = last t" using t by (simp add: s_def)
  have lt: "st < length s" unfolding st_def using sne by (rule last_rune_start_lt)
  from sp have sp': "IsSpace (fst (DecodeLastRuneInString s))" by (simp add: s_def)
  from False sne sp' ls have full: "st + snd (DecodeRuneInString e) = length s"
    using not_space_RuneError
    by (auto simp: DecodeLastRuneInString_def Let_def split_beta st_def e_def split: if_splits)
  with False sne ls have dl: "DecodeLastRuneInString s = DecodeRuneInString e"
    by (simp add: DecodeLastRuneInString_def Let_def split_beta st_def e_def prod_eq_iff)
  have ene: "e \<noteq> []" using lt by (simp add: e_def)
  have elen: "length e = length s - st" by (simp add: e_def)
  have efull: "snd (DecodeRuneInString e) = length e" using full elen by linarith
  have eok: "DecodeRuneInString e \<noteq> (RuneError, 1)"
    using sp' dl not_space_RuneError by auto
  have elast: "last e = last t" using lt ls by (simp add: e_def)
  have bytes: "\<forall>c \<in> set e. \<not> byte c < 0x80"
    using ene eok efull False by (intro full_rune_bytes) (simp_all add: elast)
  have stx: "length x \<le> st"
  proof (rule ccontr)
    assume "\<not> length x \<le> st"
    then have lx: "st < length x" by simp
    then have xne: "x \<noteq> []" by auto
    have "e = drop st x @ t" using lx by (simp add: e_def s_def)
    moreover have "last x \<in> set (drop st x)" using lx by (metis drop_eq_Nil last_drop last_in_set not_le)
    ultimately have "last x \<in> set e" by simp
    with bytes x xne show False by auto
  qed
  then have e2: "e = drop (st - length x) t" by (simp add: e_def s_def)
  have "DecodeLastRuneInString (take (st - length x) t @ e) = DecodeRuneInString e"
    using ene eok efull by (rule DecodeLast_full)
  moreover have "take (st - length x) t @ e = t" by (simp add: e2)
  ultimately have "DecodeLastRuneInString t = DecodeRuneInString e" by simp
  with sp' dl show ?thesis by simp
qed

lemma TrimRight_append_fix:
  assumes "t \<noteq> []" and "TrimRightSpace t = t" and "x = [] \<or> byte (last x) < 0x80"
  shows "TrimRightSpace (x @ t) = x @ t"
proof -
  have "\<not> IsSpace (fst (DecodeLastRuneInString t))"
    using TrimRight_last [of t] assms(1,2) by simp
  with DecodeLast_space_append [OF assms(1,3)]
  have "\<not> IsSpace (fst (DecodeLastRuneInString (x @ t)))" by blast
  then show ?thesis by (simp add: TrimRight_fix)
qed

lemma TrimSpace_fixD:
  assumes "TrimSpace t = t"
  shows "TrimLeftSpace t = t" and "TrimRightSpace t = t"
proof -
  obtain k where k: "TrimLeftSpace t = drop k t" using TrimLeft_suffix by blast
  obtain j where j: "TrimRightSpace (TrimLeftSpace t) = take j (TrimLeftSpace t)"
    using TrimRight_prefix by blast
  from assms have "take j (drop k t) = t"
    using j by (simp add: TrimSpace_def k)
  then have "length (take j (drop k t)) = length t" by simp
  then have "min (length t - k) j = length t" by simp
  then have "length t \<le> length t - k" by linarith
  then have "k = 0 \<or> t = []" by (cases t) auto
  then show l: "TrimLeftSpace t = t" using k by auto
  from assms show "TrimRightSpace t = t" by (simp add: TrimSpace_def l)
qed

lemma TrimSpace_prefixed:
  assumes t: "t \<noteq> []" "TrimSpace t = t"
    and x: "x \<noteq> []" "byte (hd x) < 0x80" "\<not> IsSpace (byte (hd x))" "byte (last x) < 0x80"
  shows "TrimSpace (x @ t) = x @ t"
proof -
  from x(1) obtain c x' where c: "x = c # x'" by (cases x) auto
  with x have "DecodeRuneInString (x @ t) = (byte c, 1)" by (simp add: decode_ascii)
  with x c have "TrimLeftSpace (x @ t) = x @ t" by (simp add: TrimLeft_fix)
  moreover have "TrimRightSpace (x @ t) = x @ t"
    using t(1) TrimSpace_fixD(2) [OF t(2)] x(4) by (intro TrimRight_append_fix) simp_all
  ultimately show ?thesis by (simp add: TrimSpace_def)
qed

section \<open>Rendering and compiling back\<close>

lemma unstyled_run: 
  "(case RunTextStyle run of None \<Rightarrow> True
     | Some style \<Rightarrow> \<not> Bold style \<and> \<not> Italic style \<and> Link style = None)
   \<Longrightarrow> run_markdown run = Content run"
  by (auto simp: run_markdown_def Let_def split: option.splits)

lemma unstyled_markdown:
  assumes "unstyled paragraph"
  shows "concat (map (\<lambda>element. case ElemTextRun element of
                         None \<Rightarrow> [] | Some run \<Rightarrow> run_markdown run)
                     (Elements paragraph)) = paragraph_raw paragraph"
proof -
  have "\<forall>element \<in> set (Elements paragraph).
      (case ElemTextRun element of None \<Rightarrow> [] | Some run \<Rightarrow> run_markdown run)
      = (case ElemTextRun element of None \<Rightarrow> [] | Some run \<Rightarrow> Content run)"
    using assms by (auto simp: unstyled_def list_all_iff unstyled_run split: option.splits)
  then have "map (\<lambda>element. case ElemTextRun element of
                         None \<Rightarrow> [] | Some run \<Rightarrow> run_markdown run) (Elements paragraph)
      = map (\<lambda>element. case ElemTextRun element of
                         None \<Rightarrow> [] | Some run \<Rightarrow> Content run) (Elements paragraph)"
    unfolding map_eq_conv .
  then show ?thesis unfolding paragraph_raw_def by (rule arg_cong)
qed

lemma all_space_NL: "all_space [NL]"
  by (subst all_space.simps) (simp add: IsSpace_def byte_def all_space.simps)

lemma all_space_Nil: "all_space []"
  by (simp add: all_space.simps)

lemma all_space_blank: "all_space '' ''"
  by (subst all_space.simps) (simp add: IsSpace_def byte_def all_space.simps)

lemma TrimSpace_line_end: "TrimSpace (t @ [NL]) = TrimSpace t"
  using TrimSpace_pad [of "[]" "[NL]" t] all_space_NL by (simp add: all_space_iff)

lemma TrimSpace_blank_start: "TrimSpace ('' '' @ t) = TrimSpace t"
  using TrimSpace_pad [of "'' ''" "[]" t] all_space_blank by (simp add: all_space_iff)

lemma roundtrip_raw:
  assumes "roundtrip_paragraph p"
  shows "paragraph_raw p = block_text p @ [NL]"
    and "GetParagraphText p = block_text p"
    and "formatParagraphAsMarkdown p = block_text p @ [NL, NL, NL]"
proof -
  from assms have ne: "paragraph_raw p \<noteq> []" and l: "last (paragraph_raw p) = NL"
    and st: "simple_text (block_text p)" and u: "unstyled p"
    by (simp_all add: roundtrip_paragraph_def)
  show raw: "paragraph_raw p = block_text p @ [NL]"
    using ne l by (simp add: block_text_def) (metis append_butlast_last_id)
  have t: "TrimSpace (paragraph_raw p) = block_text p"
    using st by (simp add: raw TrimSpace_line_end simple_text_def)
  then show "GetParagraphText p = block_text p"
    by (simp add: GetParagraphText_def paragraph_raw_def)
  from st have "block_text p \<noteq> []" by (simp add: simple_text_def)
  with t show "formatParagraphAsMarkdown p = block_text p @ [NL, NL, NL]"
    by (simp add: formatParagraphAsMarkdown_def unstyled_markdown [OF u] Let_def raw)
qed

lemma heading_decimals:
  "''HEADING_'' @ decimal 1 = ''HEADING_1''" "''HEADING_'' @ decimal 2 = ''HEADING_2''"
  "''HEADING_'' @ decimal 3 = ''HEADING_3''" "''HEADING_'' @ decimal 4 = ''HEADING_4''"
  "''HEADING_'' @ decimal 5 = ''HEADING_5''" "''HEADING_'' @ decimal 6 = ''HEADING_6''"
  by code_simp+

lemma heading_number_Some:
  assumes "heading_number st = Some n"
  shows "1 \<le> n \<and> n \<le> 6 \<and> st = ''HEADING_'' @ decimal n"
proof -
  from assms have "(n = 1 \<and> st = ''HEADING_1'') \<or> (n = 2 \<and> st = ''HEADING_2'')
      \<or> (n = 3 \<and> st = ''HEADING_3'') \<or> (n = 4 \<and> st = ''HEADING_4'')
      \<or> (n = 5 \<and> st = ''HEADING_5'') \<or> (n = 6 \<and> st = ''HEADING_6'')"
    by (auto simp: heading_number_def split: if_splits)
  then show ?thesis using heading_decimals by (elim disjE conjE) simp_all
qed

lemma element_markdown_heading:
  assumes "ElemParagraph element = Some p" and "paragraph_heading p = Some n"
  shows "element_markdown element = hashes n @ '' '' @ GetParagraphText p @ [NL, NL]"
proof -
  from assms(2) obtain ps where ps: "ParaStyle p = Some ps"
    and hn: "heading_number (NamedStyleType ps) = Some n"
    by (auto simp: paragraph_heading_def split: option.splits)
  from hn have ne: "NamedStyleType ps \<noteq> []" by (auto simp: heading_number_def)
  from hn show ?thesis
    using assms(1) ps ne
    by (auto simp: element_markdown_def Let_def heading_number_def split: if_splits)
qed

lemma element_markdown_plain:
  assumes "ElemParagraph element = Some p" and "paragraph_heading p = None"
  shows "element_markdown element = formatParagraphAsMarkdown p"
  using assms
  by (auto simp: element_markdown_def Let_def paragraph_heading_def heading_number_def
      split: option.splits if_splits)

lemma hash_facts: "byte (CHR ''#'') < 0x80" "\<not> IsSpace (byte (CHR ''#''))" "byte (CHR '' '') < 0x80"
  by (simp_all add: byte_def IsSpace_def)

lemma hashes_line_requests:
  assumes st: "simple_text t" and n: "1 \<le> n" "n \<le> 6"
  shows "line_requests (hashes n @ '' '' @ t) c =
     ([InsertText c (t @ [NL]),
       UpdateParagraphStyle c (c + of_nat (RuneCountInString t) + 1) (''HEADING_'' @ decimal n)],
      c + of_nat (RuneCountInString t) + 1)"
proof -
  from st have t: "t \<noteq> []" "TrimSpace t = t" by (simp_all add: simple_text_def)
  let ?x = "hashes n @ '' ''"
  from n(1) obtain k where k: "n = Suc k" by (cases n) auto
  have "TrimSpace (?x @ t) = ?x @ t"
    using t hash_facts by (intro TrimSpace_prefixed) (simp_all add: hashes_def k)
  then have ts: "TrimSpace (hashes n @ '' '' @ t) = hashes n @ ('' '' @ t)" by simp
  have r: "'' '' @ t = [] \<or> hd ('' '' @ t) \<noteq> CHR ''#''" by simp
  have tr: "TrimSpace ('' '' @ t) = t" using t(2) by (simp only: TrimSpace_blank_start)
  from heading_requests [OF ts n r, of c] show ?thesis
    by (simp only: tr decimal_digit [of n] n) (use n in \<open>simp add: decimal_digit\<close>)
qed

lemma plain_line_requests:
  assumes st: "simple_text t" and p: "plain_text t"
  shows "line_requests t c = ([InsertText c (t @ [NL])], c + of_nat (RuneCountInString t) + 1)"
proof -
  from st have t: "t \<noteq> []" "TrimSpace t = t" by (simp_all add: simple_text_def)
  from p have h: "\<not> HasPrefix t ''#''" and nm: "FindAllStringSubmatchIndex boldRegex t = []"
    "FindAllStringSubmatchIndex italicRegex t = []"
    by (simp_all add: plain_text_def)
  show ?thesis using t h by (simp add: line_requests_def Let_def no_match_parse [OF nm])
qed

lemma empty_line_requests: "line_requests [] c = ([InsertText c [NL]], c + 1)"
  by (rule blank_line_requests) (simp add: TrimSpace_def)

lemma compile_lines_acc: "compile_lines ls reqs c = reqs @ compile_lines ls [] c"
proof (induction ls arbitrary: reqs c)
  case Nil
  show ?case by simp
next
  case (Cons l ls)
  obtain new nxt where ln: "line_requests l c = (new, nxt)" by (cases "line_requests l c")
  have "compile_lines (l # ls) reqs c = compile_lines ls (reqs @ new) nxt" by (simp add: ln)
  also have "\<dots> = (reqs @ new) @ compile_lines ls [] nxt" by (rule Cons.IH)
  also have "\<dots> = reqs @ compile_lines ls new nxt" using Cons.IH [of new nxt] by simp
  finally show ?case by (simp add: ln)
qed

lemma compile_lines_step:
  "line_requests l c = (new, nxt) \<Longrightarrow> compile_lines (l # ls) [] c = new @ compile_lines ls [] nxt"
  using compile_lines_acc [of ls new nxt] by simp

lemma compile_empty_line:
  "compile_lines ([] # ls) [] c = InsertText c [NL] # compile_lines ls [] (c + 1)"
  using compile_lines_step [OF empty_line_requests [of c], of ls] by simp

lemma compile_plain_block:
  assumes "simple_text t" and "plain_text t"
  shows "compile_lines (t # [] # [] # ls) [] c
     = block_requests t None c @ compile_lines ls [] (c + block_advance t None)"
proof -
  have 1: "compile_lines (t # [] # [] # ls) [] c
      = [InsertText c (t @ [NL])]
        @ compile_lines ([] # [] # ls) [] (c + of_nat (RuneCountInString t) + 1)"
    by (rule compile_lines_step [OF plain_line_requests [OF assms]])
  have a: "c + of_nat (RuneCountInString t) + 1 + 1 = c + of_nat (RuneCountInString t) + 2"
    "c + of_nat (RuneCountInString t) + 2 + 1 = c + (of_nat (RuneCountInString t) + 3)"
    by simp_all
  show ?thesis
    unfolding 1 compile_empty_line a block_requests_def block_advance_def by simp
qed

lemma compile_heading_block:
  assumes "simple_text t" and "1 \<le> n" and "n \<le> 6"
  shows "compile_lines ((hashes n @ '' '' @ t) # [] # ls) [] c
     = block_requests t (Some n) c @ compile_lines ls [] (c + block_advance t (Some n))"
proof -
  have 1: "compile_lines ((hashes n @ '' '' @ t) # [] # ls) [] c
      = [InsertText c (t @ [NL]),
         UpdateParagraphStyle c (c + of_nat (RuneCountInString t) + 1) (''HEADING_'' @ decimal n)]
        @ compile_lines ([] # ls) [] (c + of_nat (RuneCountInString t) + 1)"
    by (rule compile_lines_step [OF hashes_line_requests [OF assms]])
  have a: "c + of_nat (RuneCountInString t) + 1 + 1 = c + (of_nat (RuneCountInString t) + 2)"
    by simp
  show ?thesis
    unfolding 1 compile_empty_line a block_requests_def block_advance_def by simp
qed

lemma block_compile:
  assumes e: "ElemParagraph element = Some p" and ok: "roundtrip_paragraph p"
  shows "compile_lines (SplitLines (element_markdown element @ rest)) [] c
     = block_requests (block_text p) (paragraph_heading p) c
       @ compile_lines (SplitLines rest) [] (c + block_advance (block_text p) (paragraph_heading p))"
proof -
  let ?t = "block_text p"
  from ok have st: "simple_text ?t" by (simp add: roundtrip_paragraph_def)
  then have nl: "NL \<notin> set ?t" by (simp add: simple_text_def)
  show ?thesis
  proof (cases "paragraph_heading p")
    case None
    with ok have pt: "plain_text ?t" by (simp add: roundtrip_paragraph_def)
    have md: "element_markdown element @ rest = ?t @ NL # NL # NL # rest"
      using element_markdown_plain [OF e None] roundtrip_raw(3) [OF ok] by simp
    have sl: "SplitLines (?t @ NL # NL # NL # rest) = ?t # [] # [] # SplitLines rest"
      using SplitLines_append_NL [OF nl, of "NL # NL # rest"] by simp
    show ?thesis
      unfolding md sl None by (rule compile_plain_block [OF st pt])
  next
    case (Some n)
    from Some obtain ps where "ParaStyle p = Some ps" "heading_number (NamedStyleType ps) = Some n"
      by (auto simp: paragraph_heading_def split: option.splits)
    with heading_number_Some have n: "1 \<le> n" "n \<le> 6" by auto
    let ?l = "hashes n @ '' '' @ ?t"
    have nl': "NL \<notin> set ?l" using nl by (simp add: hashes_def)
    have md: "element_markdown element @ rest = ?l @ NL # NL # rest"
      using element_markdown_heading [OF e Some] roundtrip_raw(2) [OF ok] by simp
    have sl: "SplitLines (?l @ NL # NL # rest) = ?l # [] # SplitLines rest"
      using SplitLines_append_NL [OF nl', of "NL # rest"] by simp
    show ?thesis
      unfolding md sl Some by (rule compile_heading_block [OF st n])
  qed
qed

lemma blocks_compile:
  assumes "list_all (\<lambda>element. case ElemParagraph element of
                      None \<Rightarrow> False | Some paragraph \<Rightarrow> roundtrip_paragraph paragraph) es"
  shows "compile_lines (SplitLines (concat (map element_markdown es))) [] c
     = roundtrip_requests (map element_block es) c"
  using assms
proof (induction es arbitrary: c)
  case Nil
  have "compile_lines [[]] [] c = [InsertText c [NL]]"
    using compile_empty_line [of "[]" c] by simp
  then show ?case by simp
next
  case (Cons e es)
  from Cons.prems obtain p where p: "ElemParagraph e = Some p" "roundtrip_paragraph p"
    by (auto split: option.splits)
  from Cons.prems have rest: "list_all (\<lambda>element. case ElemParagraph element of
                      None \<Rightarrow> False | Some paragraph \<Rightarrow> roundtrip_paragraph paragraph) es"
    by simp
  show ?case
    using block_compile [OF p, of "concat (map element_markdown es)" c] Cons.IH [OF rest]
    by (simp add: element_block_def p)
qed

lemma roundtrip_closed:
  assumes "roundtrip_document doc"
  shows "MarkdownToDocsRequests (DocsToMarkdown doc) 1 = roundtrip_requests (document_blocks doc) 1"
proof -
  let ?t = "DocTitle doc"
  let ?l = "hashes 1 @ '' '' @ ?t"
  let ?body = "concat (map element_markdown (BodyContent doc))"
  from assms have st: "simple_text ?t" by (simp add: roundtrip_document_def)
  then have nl: "NL \<notin> set ?l" by (simp add: simple_text_def hashes_def)
  have md: "DocsToMarkdown doc = ?l @ NL # NL # ?body"
    by (simp add: DocsToMarkdown_def hashes_def)
  have sl: "SplitLines (?l @ NL # NL # ?body) = ?l # [] # SplitLines ?body"
    using SplitLines_append_NL [OF nl, of "NL # ?body"] by simp
  have b: "compile_lines (SplitLines ?body) [] c
      = roundtrip_requests (map element_block (BodyContent doc)) c" for c
    using assms by (intro blocks_compile) (simp add: roundtrip_document_def)
  have "compile_lines (?l # [] # SplitLines ?body) [] 1
      = block_requests ?t (Some 1) 1
        @ compile_lines (SplitLines ?body) [] (1 + block_advance ?t (Some 1))"
    by (rule compile_heading_block [OF st]) simp_all
  then show ?thesis
    unfolding MarkdownToDocsRequests_def md sl by (simp add: b document_blocks_def)
qed

lemma inserted_texts_append: "inserted_texts (a @ b) = inserted_texts a @ inserted_texts b"
  by (simp add: inserted_texts_def List.map_filter_def)

lemma paragraph_styles_append: "paragraph_styles (a @ b) = paragraph_styles a @ paragraph_styles b"
  by (simp add: paragraph_styles_def List.map_filter_def)

lemma block_inserted_texts:
  "t \<noteq> [] \<Longrightarrow> filter (\<lambda>x. x \<noteq> [NL]) (inserted_texts (block_requests t h c)) = [t @ [NL]]"
  by (cases h) (simp_all add: block_requests_def inserted_texts_def List.map_filter_def)

lemma block_paragraph_styles:
  "map (\<lambda>(a, b, st). st) (paragraph_styles (block_requests t h c))
     = (case h of None \<Rightarrow> [] | Some n \<Rightarrow> [''HEADING_'' @ decimal n])"
  by (cases h) (simp_all add: block_requests_def paragraph_styles_def List.map_filter_def)

lemma roundtrip_inserted_texts:
  "\<forall>b \<in> set blocks. fst b \<noteq> [] \<Longrightarrow>
     filter (\<lambda>x. x \<noteq> [NL]) (inserted_texts (roundtrip_requests blocks c))
       = map (\<lambda>b. fst b @ [NL]) blocks"
proof (induction blocks arbitrary: c)
  case Nil
  show ?case by (simp add: inserted_texts_def List.map_filter_def)
next
  case (Cons b blocks)
  obtain t h where b: "b = (t, h)" by (cases b)
  with Cons.prems have t: "t \<noteq> []" by simp
  from Cons.prems have "\<forall>b \<in> set blocks. fst b \<noteq> []" by simp
  from Cons.IH [OF this] block_inserted_texts [OF t] show ?case
    by (simp add: b inserted_texts_append)
qed

lemma roundtrip_paragraph_styles:
  "map (\<lambda>(a, b, st). st) (paragraph_styles (roundtrip_requests blocks c))
     = concat (map (\<lambda>b. case snd b of None \<Rightarrow> [] | Some n \<Rightarrow> [''HEADING_'' @ decimal n]) blocks)"
proof (induction blocks arbitrary: c)
  case Nil
  show ?case by (simp add: paragraph_styles_def List.map_filter_def)
next
  case (Cons b blocks)
  obtain t h where b: "b = (t, h)" by (cases b)
  from Cons.IH block_paragraph_styles [of t h c] show ?case
    by (simp add: b paragraph_styles_append)
qed

lemma RuneCount_line: "RuneCountInString (t @ [NL]) = RuneCountInString t + 1"
  using RuneCount_append_ncont [of NL t "[]"]
  by (simp add: contb_def byte_def RuneCount_ascii_Cons)

lemma styles_follow_Insert_Insert:
  "styles_follow_inserts (InsertText i t # InsertText j u # ops)
     = styles_follow_inserts (InsertText j u # ops)"
  by simp

lemma block_requests_head: "\<exists>rest. block_requests t h c = InsertText c (t @ [NL]) # rest"
  by (cases h) (simp_all add: block_requests_def)

lemma roundtrip_requests_head: "\<exists>i t rest. roundtrip_requests blocks c = InsertText i t # rest"
proof (cases blocks)
  case Nil
  then show ?thesis by simp
next
  case (Cons b bs)
  obtain t h where "b = (t, h)" by (cases b)
  with Cons block_requests_head [of t h c] show ?thesis by auto
qed

lemma roundtrip_styles_follow: "styles_follow_inserts (roundtrip_requests blocks c)"
proof (induction blocks arbitrary: c)
  case Nil
  show ?case by simp
next
  case (Cons b blocks)
  obtain t h where b: "b = (t, h)" by (cases b)
  obtain i u rest where r: "roundtrip_requests blocks (c + block_advance t h) = InsertText i u # rest"
    using roundtrip_requests_head by blast
  have ih: "styles_follow_inserts (InsertText i u # rest)" using Cons.IH [of "c + block_advance t h"] r by simp
  show ?case
  proof (cases h)
    case None
    with ih r show ?thesis by (simp add: b block_requests_def)
  next
    case (Some n)
    with ih r show ?thesis by (simp add: b block_requests_def RuneCount_line add.assoc)
  qed
qed

lemma element_blocks_facts:
  assumes "\<forall>e \<in> set es. \<exists>p. ElemParagraph e = Some p \<and> roundtrip_paragraph p"
  shows "\<forall>b \<in> set (map element_block es). fst b \<noteq> []"
    and "map (\<lambda>b. fst b @ [NL]) (map element_block es) = map element_raw es"
    and "concat (map (\<lambda>b. case snd b of None \<Rightarrow> [] | Some n \<Rightarrow> [''HEADING_'' @ decimal n])
           (map element_block es))
       = List.map_filter element_heading_style es"
  using assms
proof (induction es)
  case Nil
  { case 1 show ?case by simp }
  { case 2 show ?case by simp }
  { case 3 show ?case by (simp add: List.map_filter_simps) }
next
  case (Cons e es)
  { case 1
    from 1 obtain p where p: "ElemParagraph e = Some p" "roundtrip_paragraph p" by auto
    from p(2) have "fst (element_block e) \<noteq> []"
      by (simp add: element_block_def p(1) roundtrip_paragraph_def simple_text_def)
    with Cons.IH(1) 1 show ?case by simp }
  { case 2
    from 2 obtain p where p: "ElemParagraph e = Some p" "roundtrip_paragraph p" by auto
    from roundtrip_raw(1) [OF p(2)] have "fst (element_block e) @ [NL] = element_raw e"
      by (simp add: element_block_def element_raw_def p(1))
    with Cons.IH(2) 2 show ?case by simp }
  { case 3
    from 3 obtain p where p: "ElemParagraph e = Some p" "roundtrip_paragraph p" by auto
    have "(case snd (element_block e) of None \<Rightarrow> [] | Some n \<Rightarrow> [''HEADING_'' @ decimal n])
        = (case element_heading_style e of None \<Rightarrow> [] | Some s \<Rightarrow> [s])"
      using heading_number_Some
      by (auto simp: element_block_def element_heading_style_def p(1) paragraph_heading_def
          split: option.splits)
    with Cons.IH(3) 3 show ?case
      by (simp add: List.map_filter_simps split: option.splits) }
qed

lemma roundtrip_block_texts:
  assumes "roundtrip_document doc"
  shows "\<forall>b \<in> set (document_blocks doc). fst b \<noteq> []"
    and "map (\<lambda>b. fst b @ [NL]) (document_blocks doc)
       = (DocTitle doc @ [NL]) # map element_raw (BodyContent doc)"
    and "concat (map (\<lambda>b. case snd b of None \<Rightarrow> [] | Some n \<Rightarrow> [''HEADING_'' @ decimal n])
           (document_blocks doc))
       = ''HEADING_1'' # List.map_filter element_heading_style (BodyContent doc)"
proof -
  from assms have st: "DocTitle doc \<noteq> []"
    and es: "\<forall>e \<in> set (BodyContent doc). \<exists>p. ElemParagraph e = Some p \<and> roundtrip_paragraph p"
    by (auto simp: roundtrip_document_def simple_text_def list_all_iff split: option.splits)
  note f = element_blocks_facts [OF es]
  from st f(1) show "\<forall>b \<in> set (document_blocks doc). fst b \<noteq> []"
    by (simp add: document_blocks_def)
  from f(2) show "map (\<lambda>b. fst b @ [NL]) (document_blocks doc)
       = (DocTitle doc @ [NL]) # map element_raw (BodyContent doc)"
    by (simp add: document_blocks_def)
  from f(3) heading_decimals(1)
  show "concat (map (\<lambda>b. case snd b of None \<Rightarrow> [] | Some n \<Rightarrow> [''HEADING_'' @ decimal n])
           (document_blocks doc))
       = ''HEADING_1'' # List.map_filter element_heading_style (BodyContent doc)"
    by (simp add: document_blocks_def)
qed

section \<open>Where the stripped text holds the content of a match\<close>

















section \<open>Whole inputs of one line\<close>

lemma legacy_compile_single_line:
  "NL \<notin> set line \<Longrightarrow>
   markdownToDocsRequests line s = map_option fst (legacy_line_requests line s)"
  by (simp add: markdownToDocsRequests_def single_line_requests split: option.splits prod.splits)

lemma blank_compile:
  assumes "all_space line" and "NL \<notin> set line"
  shows "MarkdownToDocsRequests line s = [InsertText s [NL]]"
    and "markdownToDocsRequests line s = Some [InsertText s [NL]]"
proof -
  from assms(1) have t: "TrimSpace line = []" by (simp add: all_space_iff TrimSpace_space)
  show "MarkdownToDocsRequests line s = [InsertText s [NL]]"
    by (simp add: compile_single_line [OF assms(2)] blank_line_requests [OF t])
  show "markdownToDocsRequests line s = Some [InsertText s [NL]]"
    by (simp add: legacy_compile_single_line [OF assms(2)] legacy_blank_line_requests [OF t])
qed

lemma padded_plain_compile:
  assumes "all_space w1" and "all_space w2" and "NL \<notin> set (w1 @ l @ w2)"
    and "TrimSpace l \<noteq> []" and "plain_text (TrimSpace l)"
  shows "MarkdownToDocsRequests (w1 @ l @ w2) s = [InsertText s (TrimSpace l @ [NL])]"
    and "markdownToDocsRequests (w1 @ l @ w2) s = Some [InsertText s (TrimSpace l @ [NL])]"
proof -
  let ?t = "TrimSpace l"
  from assms(5) have h: "\<not> HasPrefix ?t ''#''"
    and nm: "FindAllStringSubmatchIndex boldRegex ?t = []"
      "FindAllStringSubmatchIndex italicRegex ?t = []"
    by (simp_all add: plain_text_def)
  have 1: "line_requests (w1 @ l @ w2) s
      = ([InsertText s (?t @ [NL])], s + of_nat (RuneCountInString ?t) + 1)"
    unfolding padded_line_requests(1) [OF assms(1,2)]
    using assms(4) h by (simp add: line_requests_def Let_def no_match_parse [OF nm])
  have 2: "legacy_line_requests (w1 @ l @ w2) s
      = Some ([InsertText s (?t @ [NL])], s + of_nat (length ?t) + 1)"
    unfolding padded_line_requests(2) [OF assms(1,2)]
    using assms(4) h by (simp add: legacy_line_requests_def Let_def no_match_parse [OF nm])
  show "MarkdownToDocsRequests (w1 @ l @ w2) s = [InsertText s (?t @ [NL])]"
    by (simp add: compile_single_line [OF assms(3)] 1)
  show "markdownToDocsRequests (w1 @ l @ w2) s = Some [InsertText s (?t @ [NL])]"
    by (simp add: legacy_compile_single_line [OF assms(3)] 2)
qed

lemma example_blank_compile: "MarkdownToDocsRequests ''  '' s = [InsertText s [NL]]"
proof -
  have "all_space ''  ''" by code_simp
  then show ?thesis by (rule blank_compile(1)) simp
qed

lemma example_empty_compile: "MarkdownToDocsRequests [] s = [InsertText s [NL]]"
  by (simp add: compile_single_line empty_line_requests)


section \<open>The claims\<close>










text \<open>
  C10. Both copies of the compiler trim every line before anything else. A line that
  consists of white space only is compiled as the empty line is: one insertion of a newline
  at the cursor, the cursor advancing by one; as a whole input it compiles, like the empty
  input, to that single insertion. White space put before and after a line changes nothing
  of what is compiled for it, and a padded line without heading mark or span compiles to the
  insertion of its trimmed text and a newline. The requests of a whole input depend on its
  lines only through their trimmed forms. The input of the lines \<open>a b\<close> and \<open># H\<close>, each
  with white space on both sides, compiles to insertions of \<open>a b\<close> and \<open>H\<close> without it.
\<close>

theorem trim_before_processing:
  "(all_space line \<longrightarrow>
      line_requests line c = ([InsertText c [NL]], c + 1)
      \<and> legacy_line_requests line c = Some ([InsertText c [NL]], c + 1))
   \<and> (all_space w1 \<and> all_space w2 \<longrightarrow>
      line_requests (w1 @ l @ w2) c = line_requests l c
      \<and> legacy_line_requests (w1 @ l @ w2) c = legacy_line_requests l c)
   \<and> (map TrimSpace (SplitLines md1) = map TrimSpace (SplitLines md2) \<longrightarrow>
      MarkdownToDocsRequests md1 s = MarkdownToDocsRequests md2 s
      \<and> markdownToDocsRequests md1 s = markdownToDocsRequests md2 s)
   \<and> MarkdownToDocsRequests [] s = [InsertText s [NL]]
   \<and> MarkdownToDocsRequests ''  '' s = [InsertText s [NL]]
   \<and> (all_space line \<and> NL \<notin> set line \<longrightarrow>
      MarkdownToDocsRequests line s = [InsertText s [NL]]
      \<and> markdownToDocsRequests line s = Some [InsertText s [NL]])
   \<and> (all_space w1 \<and> all_space w2 \<and> NL \<notin> set (w1 @ l @ w2)
        \<and> TrimSpace l \<noteq> [] \<and> plain_text (TrimSpace l) \<longrightarrow>
      MarkdownToDocsRequests (w1 @ l @ w2) s = [InsertText s (TrimSpace l @ [NL])]
      \<and> markdownToDocsRequests (w1 @ l @ w2) s = Some [InsertText s (TrimSpace l @ [NL])])
   \<and> MarkdownToDocsRequests (''  a b  '' @ [NL] @ [CHR 0x09] @ ''# H '') 1
       = [InsertText 1 (''a b'' @ [NL]), InsertText 5 (''H'' @ [NL]),
          UpdateParagraphStyle 5 7 ''HEADING_1'']
   \<and> markdownToDocsRequests (''  a b  '' @ [NL] @ [CHR 0x09] @ ''# H '') 1
       = Some [InsertText 1 (''a b'' @ [NL]), InsertText 5 (''H'' @ [NL]),
          UpdateParagraphStyle 5 7 ''HEADING_1'']"
proof -
  have a1: "line_requests line c = ([InsertText c [NL]], c + 1)"
    and a2: "legacy_line_requests line c = Some ([InsertText c [NL]], c + 1)"
    if "all_space line"
  proof -
    from that have t: "TrimSpace line = []" by (simp add: all_space_iff TrimSpace_space)
    from t show "line_requests line c = ([InsertText c [NL]], c + 1)"
      by (rule blank_line_requests)
    from t show "legacy_line_requests line c = Some ([InsertText c [NL]], c + 1)"
      by (rule legacy_blank_line_requests)
  qed
  have b: "line_requests (w1 @ l @ w2) c = line_requests l c
      \<and> legacy_line_requests (w1 @ l @ w2) c = legacy_line_requests l c"
    if "all_space w1 \<and> all_space w2"
    using that by (simp add: padded_line_requests)
  have d: "MarkdownToDocsRequests md1 s = MarkdownToDocsRequests md2 s
      \<and> markdownToDocsRequests md1 s = markdownToDocsRequests md2 s"
    if eq: "map TrimSpace (SplitLines md1) = map TrimSpace (SplitLines md2)"
  proof
    show "MarkdownToDocsRequests md1 s = MarkdownToDocsRequests md2 s"
      unfolding MarkdownToDocsRequests_def
      by (metis eq compile_lines_trim)
    show "markdownToDocsRequests md1 s = markdownToDocsRequests md2 s"
      unfolding markdownToDocsRequests_def
      by (metis eq legacy_compile_lines_trim)
  qed
  have e1: "MarkdownToDocsRequests (''  a b  '' @ [NL] @ [CHR 0x09] @ ''# H '') 1
       = [InsertText 1 (''a b'' @ [NL]), InsertText 5 (''H'' @ [NL]),
          UpdateParagraphStyle 5 7 ''HEADING_1'']"
    by code_simp
  have e2: "markdownToDocsRequests (''  a b  '' @ [NL] @ [CHR 0x09] @ ''# H '') 1
       = Some [InsertText 1 (''a b'' @ [NL]), InsertText 5 (''H'' @ [NL]),
          UpdateParagraphStyle 5 7 ''HEADING_1'']"
    by code_simp
  show ?thesis
    using a1 a2 b d e1 e2 example_empty_compile [of s] example_blank_compile [of s]
      blank_compile [of line s] padded_plain_compile [of w1 w2 l s]
    by blast
qed

theorem trim_before_processing_witness:
  "all_space ''  '' \<and> line_requests ''  '' 1 = ([InsertText 1 [NL]], 2)
   \<and> all_space [CHR 0x09] \<and> all_space [CHR 0xC2, CHR 0xA0]
   \<and> line_requests ([CHR 0x09] @ ''x y'' @ [CHR 0xC2, CHR 0xA0]) 1 = line_requests ''x y'' 1
   \<and> map TrimSpace (SplitLines ('' a'' @ [NL] @ ''b '')) = map TrimSpace (SplitLines (''a'' @ [NL] @ ''b''))
   \<and> MarkdownToDocsRequests ('' a'' @ [NL] @ ''b '') 1 = MarkdownToDocsRequests (''a'' @ [NL] @ ''b'') 1
   \<and> NL \<notin> set ''  '' \<and> MarkdownToDocsRequests ''  '' 7 = [InsertText 7 [NL]]
   \<and> markdownToDocsRequests ''  '' 7 = Some [InsertText 7 [NL]]
   \<and> NL \<notin> set ([CHR 0x09] @ ''x y'' @ [CHR 0xC2, CHR 0xA0])
   \<and> TrimSpace ''x y'' = ''x y'' \<and> plain_text ''x y''
   \<and> MarkdownToDocsRequests ([CHR 0x09] @ ''x y'' @ [CHR 0xC2, CHR 0xA0]) 7
       = [InsertText 7 (''x y'' @ [NL])]
   \<and> markdownToDocsRequests ([CHR 0x09] @ ''x y'' @ [CHR 0xC2, CHR 0xA0]) 7
       = Some [InsertText 7 (''x y'' @ [NL])]"
proof -
  have a: "all_space ''  ''" "all_space [CHR 0x09]" "all_space [CHR 0xC2, CHR 0xA0]"
    by code_simp+
  have m: "map TrimSpace (SplitLines ('' a'' @ [NL] @ ''b ''))
      = map TrimSpace (SplitLines (''a'' @ [NL] @ ''b''))"
    by code_simp
  have n: "NL \<notin> set ''  ''" "NL \<notin> set ([CHR 0x09] @ ''x y'' @ [CHR 0xC2, CHR 0xA0])"
    by simp_all
  have t: "TrimSpace ''x y'' = ''x y''" by code_simp
  have p: "plain_text ''x y''" by code_simp
  note th = trim_before_processing [of "''  ''" 1 "[CHR 0x09]" "[CHR 0xC2, CHR 0xA0]" "''x y''"
      "'' a'' @ [NL] @ ''b ''" "''a'' @ [NL] @ ''b''" 7]
  from th a(1) have 1: "line_requests ''  '' 1 = ([InsertText 1 [NL]], 1 + 1)" by blast
  from th a(2,3) have 2: "line_requests ([CHR 0x09] @ ''x y'' @ [CHR 0xC2, CHR 0xA0]) 1
      = line_requests ''x y'' 1" by blast
  from trim_before_processing [of "''  ''" 1 "[CHR 0x09]" "[CHR 0xC2, CHR 0xA0]" "''x y''"
      "'' a'' @ [NL] @ ''b ''" "''a'' @ [NL] @ ''b''" 1] m
  have 3: "MarkdownToDocsRequests ('' a'' @ [NL] @ ''b '') 1
      = MarkdownToDocsRequests (''a'' @ [NL] @ ''b'') 1" by blast
  from th a(1) n(1) have 4: "MarkdownToDocsRequests ''  '' 7 = [InsertText 7 [NL]]"
    "markdownToDocsRequests ''  '' 7 = Some [InsertText 7 [NL]]" by blast+
  have ne: "TrimSpace ''x y'' \<noteq> []" unfolding t by simp
  have p': "plain_text (TrimSpace ''x y'')" unfolding t by (rule p)
  from th a(2,3) n(2) ne p'
  have 5: "MarkdownToDocsRequests ([CHR 0x09] @ ''x y'' @ [CHR 0xC2, CHR 0xA0]) 7
       = [InsertText 7 (TrimSpace ''x y'' @ [NL])]"
    "markdownToDocsRequests ([CHR 0x09] @ ''x y'' @ [CHR 0xC2, CHR 0xA0]) 7
       = Some [InsertText 7 (TrimSpace ''x y'' @ [NL])]" by blast+
  from 1 have one: "line_requests ''  '' 1 = ([InsertText 1 [NL]], 2)" by simp
  note five = 5 [unfolded t]
  from a one 2 m 3 n 4 t p five show ?thesis by (simp only: simp_thms)
qed

text \<open>
  C3. The two copies of the compiler do not produce equal requests in general: on
  \<open>**ab**\<close> the earlier copy styles \<open>[1, 7)\<close>, markers included, and the later one
  \<open>[1, 3)\<close>. They do produce equal requests on every input of ASCII bytes in which no
  line that is neither blank nor a heading contains a bold or italic span.
\<close>

theorem copies_agree_on_plain_ascii:
  assumes "ascii_only markdown" and "\<forall>l \<in> set (SplitLines markdown). plain_line l"
  shows "markdownToDocsRequests markdown startIndex
           = Some (MarkdownToDocsRequests markdown startIndex)"
  unfolding markdownToDocsRequests_def MarkdownToDocsRequests_def
  using assms SplitLines_ascii by (intro plain_lines_agree) blast

theorem copies_differ: 
  "markdownToDocsRequests ''**ab**'' 1 \<noteq> Some (MarkdownToDocsRequests ''**ab**'' 1)"
  by code_simp

theorem copies_agree_on_plain_ascii_witness:
  "ascii_only (''# Title'' @ [NL] @ ''some * text_'') 
   \<and> list_all plain_line (SplitLines (''# Title'' @ [NL] @ ''some * text_''))
   \<and> markdownToDocsRequests (''# Title'' @ [NL] @ ''some * text_'') 1
       = Some [InsertText 1 (''Title'' @ [NL]), UpdateParagraphStyle 1 7 ''HEADING_1'',
               InsertText 7 (''some * text_'' @ [NL])]"
proof -
  have a: "ascii_only (''# Title'' @ [NL] @ ''some * text_'')" by code_simp
  have p: "list_all plain_line (SplitLines (''# Title'' @ [NL] @ ''some * text_''))" by code_simp
  have v: "MarkdownToDocsRequests (''# Title'' @ [NL] @ ''some * text_'') 1
      = [InsertText 1 (''Title'' @ [NL]), UpdateParagraphStyle 1 7 ''HEADING_1'',
               InsertText 7 (''some * text_'' @ [NL])]" by code_simp
  from p have "\<forall>l \<in> set (SplitLines (''# Title'' @ [NL] @ ''some * text_'')). plain_line l"
    unfolding list_all_iff .
  from copies_agree_on_plain_ascii [OF a this, of 1] a p v show ?thesis by simp
qed

text \<open>
  C5. The earlier copy of the compiler advances the cursor by the number of bytes of the
  inserted text: after a line of the single rune U+00E9 (two bytes in UTF-8) inserted at 1 it inserts the
  next line at 4, and it styles the heading of that rune over \<open>[1, 4)\<close>, where the later
  copy inserts at 3 and styles \<open>[1, 3)\<close>.
\<close>

theorem legacy_counts_bytes:
  "markdownToDocsRequests ([CHR 0xC3, CHR 0xA9] @ [NL] @ ''b'') 1
     = Some [InsertText 1 [CHR 0xC3, CHR 0xA9, NL], InsertText 4 (''b'' @ [NL])]
   \<and> MarkdownToDocsRequests ([CHR 0xC3, CHR 0xA9] @ [NL] @ ''b'') 1
     = [InsertText 1 [CHR 0xC3, CHR 0xA9, NL], InsertText 3 (''b'' @ [NL])]
   \<and> RuneCountInString [CHR 0xC3, CHR 0xA9] = 1 \<and> length [CHR 0xC3, CHR 0xA9] = 2
   \<and> markdownToDocsRequests (''# '' @ [CHR 0xC3, CHR 0xA9]) 1
     = Some [InsertText 1 [CHR 0xC3, CHR 0xA9, NL], UpdateParagraphStyle 1 4 ''HEADING_1'']
   \<and> MarkdownToDocsRequests (''# '' @ [CHR 0xC3, CHR 0xA9]) 1
     = [InsertText 1 [CHR 0xC3, CHR 0xA9, NL], UpdateParagraphStyle 1 3 ''HEADING_1'']"
  by code_simp

text \<open>
  C9. \<open>ParseColor\<close> strips one leading \<open>#\<close> if there is one, and no more. It returns
  no colour exactly when the length of the remainder is not 6. When the remainder is six
  hexadecimal digits it returns the colour they denote, with or without the leading \<open>#\<close>.
  The length is the only gate: the remainder \<open>FF00zz\<close> is not six hexadecimal digits and
  still yields a colour, made of the two components scanned before the scan failed.
\<close>

theorem parse_colour_length_gate:
  "(ParseColor s = None \<longleftrightarrow> length (TrimPrefix s ''#'') \<noteq> 6)
   \<and> TrimPrefix (CHR ''#'' # s) ''#'' = s
   \<and> (\<not> HasPrefix s ''#'' \<longrightarrow> TrimPrefix s ''#'' = s)
   \<and> (list_all hex_digit [a, b, c, d, e, f] \<longrightarrow>
        ParseColor (CHR ''#'' # [a, b, c, d, e, f])
          = Some (hex_pair a b, hex_pair c d, hex_pair e f)
        \<and> ParseColor [a, b, c, d, e, f] = Some (hex_pair a b, hex_pair c d, hex_pair e f))"
proof (intro conjI impI)
  assume h: "list_all hex_digit [a, b, c, d, e, f]"
  then have "hex_digit a" by simp
  then have "a \<noteq> CHR ''#''" by (auto simp: hex_digit_def Let_def byte_def)
  then have np: "TrimPrefix [a, b, c, d, e, f] ''#'' = [a, b, c, d, e, f]"
    by (simp add: TrimPrefix_def HasPrefix_def)
  show "ParseColor (CHR ''#'' # [a, b, c, d, e, f])
      = Some (hex_pair a b, hex_pair c d, hex_pair e f)"
    using Sscanf_rgb_hex [OF h] by (simp add: ParseColor_def TrimPrefix_hash)
  show "ParseColor [a, b, c, d, e, f] = Some (hex_pair a b, hex_pair c d, hex_pair e f)"
    using Sscanf_rgb_hex [OF h] by (simp add: ParseColor_def np)
qed (simp_all add: ParseColor_None TrimPrefix_hash TrimPrefix_none)

theorem parse_colour_length_gate_witness:
  "list_all hex_digit ''FF8000'' \<and> ParseColor ''#FF8000'' = Some (255, 128, 0)
   \<and> ParseColor ''FF8000'' = Some (255, 128, 0)
   \<and> \<not> HasPrefix ''FF8000'' ''#'' \<and> ParseColor ''##FF8000'' = None \<and> ParseColor ''#FFF'' = None"
proof -
  have h: "list_all hex_digit ''FF8000''" by code_simp
  have v: "hex_pair (CHR ''F'') (CHR ''F'') = 255" "hex_pair (CHR ''8'') (CHR ''0'') = 128"
    "hex_pair (CHR ''0'') (CHR ''0'') = 0" by code_simp+
  have n: "\<not> HasPrefix ''FF8000'' ''#''" by code_simp
  have l: "length (TrimPrefix ''##FF8000'' ''#'') \<noteq> 6" "length (TrimPrefix ''#FFF'' ''#'') \<noteq> 6"
    by code_simp+
  from parse_colour_length_gate [of "''##FF8000''"] l(1)
  have n1: "ParseColor ''##FF8000'' = None" by blast
  from parse_colour_length_gate [of "''#FFF''"] l(2)
  have n2: "ParseColor ''#FFF'' = None" by blast
  from parse_colour_length_gate [of _ "CHR ''F''" "CHR ''F''" "CHR ''8''" "CHR ''0''" "CHR ''0''" "CHR ''0''"]
    h v n n1 n2
  show ?thesis by simp
qed

theorem colour_from_partial_parse:
  "ParseColor ''#FF00zz'' = Some (255, 0, 0) \<and> \<not> list_all hex_digit ''FF00zz''"
  by code_simp

text \<open>
  C8. A table renders as the line of its first row, a separator line with one \<open>---\<close> cell
  per cell of that row, the lines of the other rows, and an empty line. For a table of two
  rows of two cells whose cell texts contain neither a pipe character nor a newline, the
  lines that are not empty are exactly three, each with exactly three pipe characters. A
  cell text with a pipe character in it adds a pipe to its line.
\<close>

theorem table_render_shape:
  "tableToMarkdown (Table rows) =
     (case rows of
        [] \<Rightarrow> [NL]
      | row # rest \<Rightarrow> row_line row @ separator_line row @ concat (map row_line rest) @ [NL])
   \<and> ((\<forall>cell \<in> set [c11, c12, c21, c22].
          NL \<notin> set (getTableCellText cell) \<and> CHR ''|'' \<notin> set (getTableCellText cell)) \<longrightarrow>
        nonblank_lines (tableToMarkdown (Table [TableRow [c11, c12], TableRow [c21, c22]]))
          = [''| '' @ getTableCellText c11 @ '' | '' @ getTableCellText c12 @ '' |'',
             ''| --- | --- |'',
             ''| '' @ getTableCellText c21 @ '' | '' @ getTableCellText c22 @ '' |'']
        \<and> map pipes (nonblank_lines
              (tableToMarkdown (Table [TableRow [c11, c12], TableRow [c21, c22]]))) = [3, 3, 3])"
  using tableToMarkdown_closed [of rows] two_by_two [of c11 c12 c21 c22] by blast

theorem table_render_shape_witness:
  "list_all (\<lambda>cell. NL \<notin> set (getTableCellText cell) \<and> CHR ''|'' \<notin> set (getTableCellText cell))
     [text_cell ''a'', text_cell ''b'', text_cell ''c'', text_cell ''d'']
   \<and> nonblank_lines (tableToMarkdown (Table [TableRow [text_cell ''a'', text_cell ''b''],
                                              TableRow [text_cell ''c'', text_cell ''d'']]))
       = [''| a | b |'', ''| --- | --- |'', ''| c | d |'']"
proof -
  have t: "getTableCellText (text_cell ''a'') = ''a''" "getTableCellText (text_cell ''b'') = ''b''"
    "getTableCellText (text_cell ''c'') = ''c''" "getTableCellText (text_cell ''d'') = ''d''"
    by code_simp+
  have h: "\<forall>cell \<in> set [text_cell ''a'', text_cell ''b'', text_cell ''c'', text_cell ''d''].
       NL \<notin> set (getTableCellText cell) \<and> CHR ''|'' \<notin> set (getTableCellText cell)"
    by (simp add: t)
  from table_render_shape [of "[]" "text_cell ''a''" "text_cell ''b''" "text_cell ''c''" "text_cell ''d''"] h
  have "nonblank_lines (tableToMarkdown (Table [TableRow [text_cell ''a'', text_cell ''b''],
                                              TableRow [text_cell ''c'', text_cell ''d'']]))
       = [''| '' @ getTableCellText (text_cell ''a'') @ '' | '' @ getTableCellText (text_cell ''b'') @ '' |'',
             ''| --- | --- |'',
             ''| '' @ getTableCellText (text_cell ''c'') @ '' | '' @ getTableCellText (text_cell ''d'') @ '' |'']"
    by blast
  with h show ?thesis by (simp add: t list_all_iff)
qed

theorem table_cell_with_pipe:
  "map pipes (nonblank_lines (tableToMarkdown (Table [TableRow [text_cell ''a|b'', text_cell ''c''],
                                                      TableRow [text_cell ''d'', text_cell ''e'']])))
     = [4, 3, 3]"
  by code_simp

text \<open>
  C7. \<open>formatParagraphAsMarkdown\<close> appends the formatted text of every text run of the
  paragraph, in order and none left out; if the text so rendered consists of white space only
  it returns nothing, otherwise it returns the rendered text followed by two newlines. A run
  of white space is not skipped: the runs \<open>a\<close>, space, \<open>b\<close> render as \<open>a b\<close>, where
  skipping the run of one space would give \<open>ab\<close>. (The copy of the function in
  \<open>helpers.go\<close> has the same statements.)
\<close>

theorem paragraph_rendering:
  "formatParagraphAsMarkdown paragraph =
     (let rendered = concat (map (\<lambda>element. case ElemTextRun element of
                                     None \<Rightarrow> [] | Some run \<Rightarrow> run_markdown run)
                                 (Elements paragraph))
      in if all_space rendered then [] else rendered @ [NL, NL])"
  by (simp add: formatParagraphAsMarkdown_def Let_def TrimSpace_empty_iff)

theorem paragraph_rendering_witness:
  "formatParagraphAsMarkdown (text_paragraph [''a'', '' '', ''b'']) = ''a b'' @ [NL, NL]
   \<and> all_space ''  '' \<and> formatParagraphAsMarkdown (text_paragraph ['' '', '' '']) = []"
proof -
  have a: "all_space ''  ''" "\<not> all_space ''a b''" by code_simp+
  have r: "concat (map (\<lambda>element. case ElemTextRun element of
                                     None \<Rightarrow> [] | Some run \<Rightarrow> run_markdown run)
                                 (Elements (text_paragraph [''a'', '' '', ''b'']))) = ''a b''"
    "concat (map (\<lambda>element. case ElemTextRun element of
                                     None \<Rightarrow> [] | Some run \<Rightarrow> run_markdown run)
                                 (Elements (text_paragraph ['' '', '' '']))) = ''  ''"
    by code_simp+
  from paragraph_rendering [of "text_paragraph [''a'', '' '', ''b'']"]
    paragraph_rendering [of "text_paragraph ['' '', '' '']"] a r
  show ?thesis by (simp add: Let_def)
qed

theorem white_space_run_not_skipped:
  "TrimSpace (run_markdown \<lparr>Content = '' '', RunTextStyle = None\<rparr>) = []
   \<and> claimed_skip (text_paragraph [''a'', '' '', ''b'']) = text_paragraph [''a'', ''b'']
   \<and> formatParagraphAsMarkdown (text_paragraph [''a'', '' '', ''b'']) = ''a b'' @ [NL, NL]
   \<and> formatParagraphAsMarkdown (claimed_skip (text_paragraph [''a'', '' '', ''b'']))
       = ''ab'' @ [NL, NL]"
  by code_simp

text \<open>
  C6. \<open>GetStructure\<close> lists the sections of the heading paragraphs in document order.
  \<open>FindSection\<close> returns nothing exactly when no section title is equal to the name under
  \<open>EqualFold\<close>, and otherwise the first section, in that order, whose title is. For ASCII
  strings \<open>EqualFold\<close> holds exactly when the two strings are equal once upper-case
  letters are mapped to lower case, so a title that only contains or starts with the name
  does not match. In the document with the headings \<open>Intro\<close> and \<open>intro details\<close> the
  name \<open>INTRO\<close> finds the section \<open>Intro\<close>.
\<close>

theorem find_section_first_exact:
  "GetStructure doc = List.map_filter element_section (BodyContent doc)
   \<and> (FindSection orbit doc name = None \<longleftrightarrow>
        (\<forall>sec \<in> set (GetStructure doc). \<not> EqualFold orbit (Title sec) name))
   \<and> (FindSection orbit doc name = Some sec \<longrightarrow>
        (\<exists>i < length (GetStructure doc). GetStructure doc ! i = sec
           \<and> EqualFold orbit (Title sec) name
           \<and> (\<forall>j < i. \<not> EqualFold orbit (Title (GetStructure doc ! j)) name)))
   \<and> (ascii_only a \<and> ascii_only b \<longrightarrow>
        EqualFold orbit a b = (map lower_byte a = map lower_byte b))
   \<and> FindSection orbit intro_document ''INTRO''
       = Some \<lparr>EndIndex = 7, Level = 1, StartIndex = 1, Title = ''Intro''\<rparr>"
proof -
  have ex: "FindSection orbit intro_document ''INTRO''
       = Some \<lparr>EndIndex = 7, Level = 1, StartIndex = 1, Title = ''Intro''\<rparr>"
    by code_simp
  show ?thesis
    using ex GetStructure_closed [of doc] find_loop_None [of orbit name "GetStructure doc"]
      find_loop_Some [of orbit name "GetStructure doc" sec] EqualFold_ascii [of a b orbit]
    unfolding FindSection_def by blast
qed

theorem find_section_first_exact_witness:
  "ascii_only ''Intro'' \<and> ascii_only ''INTRO''
   \<and> EqualFold (\<lambda>sr tr. False) ''Intro'' ''INTRO''
   \<and> FindSection (\<lambda>sr tr. False) intro_document ''INTRO''
       = Some \<lparr>EndIndex = 7, Level = 1, StartIndex = 1, Title = ''Intro''\<rparr>
   \<and> list_all (\<lambda>sec. \<not> EqualFold (\<lambda>sr tr. False) (Title sec) (''intro'' @ '' d''))
        (GetStructure intro_document)
   \<and> FindSection (\<lambda>sr tr. False) intro_document (''intro'' @ '' d'') = None"
proof -
  have a: "ascii_only ''Intro''" "ascii_only ''INTRO''" by code_simp+
  have l: "map lower_byte ''Intro'' = map lower_byte ''INTRO''" by code_simp
  have n: "list_all (\<lambda>sec. \<not> EqualFold (\<lambda>sr tr. False) (Title sec) (''intro'' @ '' d''))
      (GetStructure intro_document)"
    by code_simp
  then have n': "\<forall>sec \<in> set (GetStructure intro_document).
         \<not> EqualFold (\<lambda>sr tr. False) (Title sec) (''intro'' @ '' d'')"
    unfolding list_all_iff .
  note t1 = find_section_first_exact [of intro_document "\<lambda>sr tr. False" "''INTRO''"
      "\<lparr>EndIndex = 7, Level = 1, StartIndex = 1, Title = ''Intro''\<rparr>" "''Intro''" "''INTRO''"]
  note t2 = find_section_first_exact [of intro_document "\<lambda>sr tr. False" "''intro'' @ '' d''"
      "\<lparr>EndIndex = 7, Level = 1, StartIndex = 1, Title = ''Intro''\<rparr>" "''Intro''" "''INTRO''"]
  from t1 a l have e: "EqualFold (\<lambda>sr tr. False) ''Intro'' ''INTRO''" by blast
  from t1 have f: "FindSection (\<lambda>sr tr. False) intro_document ''INTRO''
       = Some \<lparr>EndIndex = 7, Level = 1, StartIndex = 1, Title = ''Intro''\<rparr>" by blast
  from t2 n' have g: "FindSection (\<lambda>sr tr. False) intro_document (''intro'' @ '' d'') = None"
    by blast
  from a e f n g show ?thesis by blast
qed

text \<open>
  C2. Rendering and compiling back does not reproduce a document exactly: the renderer
  writes the title as a first heading and separates the blocks by blank lines, and the
  compiler inserts all of it. For the document with title \<open>T\<close>, heading \<open>Intro\<close> and
  paragraph \<open>Hello\<close>, the inserted text is not the text of the document and the styled
  ranges are not those of its headings. What is reproduced, for a document of unstyled
  paragraphs and headings whose title and block texts are non-empty single lines without
  white space at either end, and whose other paragraphs have no leading \<open>#\<close> and no bold
  or italic span: compiled from 1, the requests are the title as a \<open>HEADING_1\<close> paragraph
  and then every block in order, its text reinserted with its newline, each heading styled
  with its own level over exactly the reinserted range, with insertions of single newlines
  in between; the insertions other than single newlines are the title line and the original
  paragraph texts, and the heading styles are \<open>HEADING_1\<close> and the original ones.
\<close>

theorem roundtrip_blocks:
  assumes "roundtrip_document doc"
  shows "MarkdownToDocsRequests (DocsToMarkdown doc) 1 = roundtrip_requests (document_blocks doc) 1
   \<and> filter (\<lambda>t. t \<noteq> [NL]) (inserted_texts (MarkdownToDocsRequests (DocsToMarkdown doc) 1))
       = (DocTitle doc @ [NL]) # map element_raw (BodyContent doc)
   \<and> map (\<lambda>(a, b, st). st) (paragraph_styles (MarkdownToDocsRequests (DocsToMarkdown doc) 1))
       = ''HEADING_1'' # List.map_filter element_heading_style (BodyContent doc)
   \<and> styles_follow_inserts (MarkdownToDocsRequests (DocsToMarkdown doc) 1)"
proof -
  note c = roundtrip_closed [OF assms]
  have 1: "filter (\<lambda>t. t \<noteq> [NL]) (inserted_texts (roundtrip_requests (document_blocks doc) 1))
       = (DocTitle doc @ [NL]) # map element_raw (BodyContent doc)"
    using roundtrip_inserted_texts [OF roundtrip_block_texts(1) [OF assms], of 1]
    by (simp only: roundtrip_block_texts(2) [OF assms])
  have 2: "map (\<lambda>(a, b, st). st) (paragraph_styles (roundtrip_requests (document_blocks doc) 1))
       = ''HEADING_1'' # List.map_filter element_heading_style (BodyContent doc)"
    using roundtrip_paragraph_styles [of "document_blocks doc" 1]
    by (simp only: roundtrip_block_texts(3) [OF assms])
  show ?thesis
    unfolding c using 1 2 roundtrip_styles_follow [of "document_blocks doc" 1] by blast
qed

theorem roundtrip_blocks_witness:
  "roundtrip_document small_document
   \<and> MarkdownToDocsRequests (DocsToMarkdown small_document) 1
       = [InsertText 1 (''T'' @ [NL]), UpdateParagraphStyle 1 3 ''HEADING_1'', InsertText 3 [NL],
          InsertText 4 (''Intro'' @ [NL]), UpdateParagraphStyle 4 10 ''HEADING_1'',
          InsertText 10 [NL],
          InsertText 11 (''Hello'' @ [NL]), InsertText 17 [NL], InsertText 18 [NL],
          InsertText 19 [NL]]"
proof -
  have ok: "roundtrip_document small_document" by code_simp
  have v: "roundtrip_requests (document_blocks small_document) 1
       = [InsertText 1 (''T'' @ [NL]), UpdateParagraphStyle 1 3 ''HEADING_1'', InsertText 3 [NL],
          InsertText 4 (''Intro'' @ [NL]), UpdateParagraphStyle 4 10 ''HEADING_1'',
          InsertText 10 [NL],
          InsertText 11 (''Hello'' @ [NL]), InsertText 17 [NL], InsertText 18 [NL],
          InsertText 19 [NL]]"
    by code_simp
  from roundtrip_blocks [OF ok] have "MarkdownToDocsRequests (DocsToMarkdown small_document) 1
      = roundtrip_requests (document_blocks small_document) 1" by (rule conjunct1)
  with ok v show ?thesis by (simp only: simp_thms)
qed

theorem roundtrip_not_exact:
  "concat (inserted_texts (MarkdownToDocsRequests (DocsToMarkdown small_document) 1))
     \<noteq> document_text small_document
   \<and> paragraph_styles (MarkdownToDocsRequests (DocsToMarkdown small_document) 1)
     \<noteq> document_headings small_document"
  by code_simp

end
